theory Spec2Isabelle
  imports Complex_Main "HOL-Library.Word" "HOL-Library.Monad_Syntax"
begin

section \<open>Memory: buffers, pointers, checked loads and stores\<close>

text \<open>
  The program works on raw arrays of a scalar type \<open>T\<close> through pointers. The buffers
  that exist while a solve runs are the three fields of a \<open>Poisson\<close> object (\<open>u\<close>,
  \<open>f\<close>, \<open>r\<close>), the temporary of \<open>Poisson::error\<close>, and the three allocations of a
  \<open>Multigrid\<close> object (\<open>r\<close>, \<open>v\<close>, \<open>w\<close>). A pointer is a buffer together with an
  element offset, so \<open>&v[k]\<close> is pointer addition. A load or a store outside the
  buffer is undefined behaviour in C++; here it is the result \<open>None\<close>.

  The scalar type \<open>T\<close> is a template parameter; it is instantiated with the real numbers,
  so arithmetic is exact: rounding, overflow to an infinity and NaN are not part of this
  instance. What overflow does to the smoother is shown on a second instance, the special
  values of IEEE binary64, further below. Division is that of the real numbers with
  \<open>x / 0 = 0\<close>; where the source divides by \<open>h \<cdot> h\<close> or by \<open>h \<cdot> (n - 1)\<close> and
  the divisor is zero, IEEE arithmetic yields an infinity or a NaN instead, and no
  statement below depends on the value of such a quotient.

  C \<open>int\<close> is 32 bits wide. In the numerical kernels and in the V-cycle every \<open>int\<close>
  operation is checked: a result outside \<open>-2\<^sup>3\<^sup>1 \<dots> 2\<^sup>3\<^sup>1 - 1\<close> is signed overflow,
  undefined behaviour in C++, and the result \<open>None\<close> here. \<open>multigrid_size\<close>, whose
  result is itself a count, is modelled with machine words. The problem container
  indexes with unbounded integers; an object whose \<open>n \<cdot> n\<close> does not fit an \<open>int\<close>
  cannot be constructed.
\<close>

datatype buffer = PU | PF | PR | ES | MR | MV | MW

type_synonym ptr = "buffer \<times> int"

type_synonym 'a store = "buffer \<Rightarrow> 'a list"

type_synonym memory = "real store"

definition ptr_add :: "ptr \<Rightarrow> int \<Rightarrow> ptr" where
  "ptr_add p k = (fst p, snd p + k)"

definition valid :: "'a store \<Rightarrow> ptr \<Rightarrow> int \<Rightarrow> bool" where
  "valid m p k \<longleftrightarrow> 0 \<le> snd p + k \<and> snd p + k < int (length (m (fst p)))"

definition cell :: "'a store \<Rightarrow> ptr \<Rightarrow> int \<Rightarrow> 'a" where
  "cell m p k = m (fst p) ! nat (snd p + k)"

definition upd :: "'a store \<Rightarrow> ptr \<Rightarrow> int \<Rightarrow> 'a \<Rightarrow> 'a store" where
  "upd m p k x = m(fst p := (m (fst p))[nat (snd p + k) := x])"

definition ld :: "'a store \<Rightarrow> ptr \<Rightarrow> int \<Rightarrow> 'a option" where
  "ld m p k = (if valid m p k then Some (cell m p k) else None)"

definition st :: "'a store \<Rightarrow> ptr \<Rightarrow> int \<Rightarrow> 'a \<Rightarrow> 'a store option" where
  "st m p k x = (if valid m p k then Some (upd m p k x) else None)"

text \<open>
  The value of an \<open>int\<close> expression whose mathematical result is \<open>x\<close>; the flat index
  \<open>j + i * n\<close> of the kernels; and the shift \<open>1 << k\<close>, which is undefined for a
  negative count and for \<open>k \<ge> 31\<close>, where \<open>2\<^sup>k\<close> is no \<open>int\<close>.
\<close>

definition c_int :: "int \<Rightarrow> int option" where
  "c_int x = (if - (2 ^ 31) \<le> x \<and> x < 2 ^ 31 then Some x else None)"

definition at_index :: "int \<Rightarrow> int \<Rightarrow> int \<Rightarrow> int option" where
  "at_index j i n = do { t \<leftarrow> c_int (i * n); c_int (j + t) }"

definition shift_left1 :: "int \<Rightarrow> int option" where
  "shift_left1 k = (if 0 \<le> k \<and> k < 31 then Some (2 ^ nat k) else None)"

text \<open>\<open>for (int i = lo; i < hi; ++i) body\<close>, stopping at the first failing iteration.\<close>

function for_loop :: "int \<Rightarrow> int \<Rightarrow> (int \<Rightarrow> 's \<Rightarrow> 's option) \<Rightarrow> 's \<Rightarrow> 's option" where
  "for_loop i hi body s =
     (if i < hi
      then (case body i s of None \<Rightarrow> None | Some s' \<Rightarrow> for_loop (i + 1) hi body s')
      else Some s)"
  by pat_completeness auto
termination
  by (relation "measure (\<lambda>(i, hi, body, s). nat (hi - i))") auto

declare for_loop.simps [simp del]

section \<open>The smoothers and the residual operator\<close>

text \<open>The assignment in the body of the smoother loops, at the point \<open>(i, j)\<close>.\<close>

definition gs_point :: "ptr \<Rightarrow> ptr \<Rightarrow> int \<Rightarrow> real \<Rightarrow> int \<Rightarrow> int \<Rightarrow> memory \<Rightarrow> memory option" where
  "gs_point u f n h i j m =
     do {
       k \<leftarrow> at_index j i n;
       fc \<leftarrow> ld m f k;
       j1 \<leftarrow> c_int (j + 1);
       ke \<leftarrow> at_index j1 i n;
       ue \<leftarrow> ld m u ke;
       j0 \<leftarrow> c_int (j - 1);
       kw \<leftarrow> at_index j0 i n;
       uw \<leftarrow> ld m u kw;
       i1 \<leftarrow> c_int (i + 1);
       ks \<leftarrow> at_index j i1 n;
       us \<leftarrow> ld m u ks;
       i0 \<leftarrow> c_int (i - 1);
       kn \<leftarrow> at_index j i0 n;
       un \<leftarrow> ld m u kn;
       st m u k (- 0.25 * (h * h * fc - ue - uw - us - un))
     }"

text \<open>The bound \<open>n - 1\<close> of both loops is an \<open>int\<close> expression as well.\<close>

definition gauss_seidel :: "ptr \<Rightarrow> ptr \<Rightarrow> int \<Rightarrow> real \<Rightarrow> memory \<Rightarrow> memory option" where
  "gauss_seidel u f n h m =
     do {
       hi \<leftarrow> c_int (n - 1);
       for_loop 1 hi (\<lambda>i. for_loop 1 hi (\<lambda>j. gs_point u f n h i j)) m
     }"

text \<open>
  One of the two loop nests of the red-black smoother: the points whose \<open>(i + j) % 2\<close> is
  \<open>c\<close>. Both counters are positive, so \<open>%\<close> is \<open>mod\<close>.
\<close>

definition rb_point :: "int \<Rightarrow> ptr \<Rightarrow> ptr \<Rightarrow> int \<Rightarrow> real \<Rightarrow> int \<Rightarrow> int \<Rightarrow> memory \<Rightarrow> memory option" where
  "rb_point c u f n h i j m =
     do {
       k \<leftarrow> c_int (i + j);
       if k mod 2 = c then gs_point u f n h i j m else Some m
     }"

definition rb_pass :: "int \<Rightarrow> ptr \<Rightarrow> ptr \<Rightarrow> int \<Rightarrow> real \<Rightarrow> memory \<Rightarrow> memory option" where
  "rb_pass c u f n h m =
     do {
       hi \<leftarrow> c_int (n - 1);
       for_loop 1 hi (\<lambda>i. for_loop 1 hi (\<lambda>j. rb_point c u f n h i j)) m
     }"

definition gauss_seidel_red_black :: "ptr \<Rightarrow> ptr \<Rightarrow> int \<Rightarrow> real \<Rightarrow> memory \<Rightarrow> memory option" where
  "gauss_seidel_red_black u f n h m =
     do { m1 \<leftarrow> rb_pass 0 u f n h m; rb_pass 1 u f n h m1 }"

definition res_point :: "ptr \<Rightarrow> ptr \<Rightarrow> ptr \<Rightarrow> int \<Rightarrow> real \<Rightarrow> int \<Rightarrow> int \<Rightarrow> memory \<Rightarrow> memory option" where
  "res_point r u f n hi2 i j m =
     do {
       k \<leftarrow> at_index j i n;
       fc \<leftarrow> ld m f k;
       j1 \<leftarrow> c_int (j + 1);
       ke \<leftarrow> at_index j1 i n;
       ue \<leftarrow> ld m u ke;
       j0 \<leftarrow> c_int (j - 1);
       kw \<leftarrow> at_index j0 i n;
       uw \<leftarrow> ld m u kw;
       uc \<leftarrow> ld m u k;
       i1 \<leftarrow> c_int (i + 1);
       ks \<leftarrow> at_index j i1 n;
       us \<leftarrow> ld m u ks;
       i0 \<leftarrow> c_int (i - 1);
       kn \<leftarrow> at_index j i0 n;
       un \<leftarrow> ld m u kn;
       st m r k (fc - (ue + uw + - 4.0 * uc + us + un) * hi2)
     }"

definition poisson_residual :: "ptr \<Rightarrow> ptr \<Rightarrow> ptr \<Rightarrow> int \<Rightarrow> real \<Rightarrow> memory \<Rightarrow> memory option" where
  "poisson_residual r u f n h m =
     (let hi2 = 1.0 / (h * h)
      in do {
        hi \<leftarrow> c_int (n - 1);
        for_loop 1 hi (\<lambda>i. for_loop 1 hi (\<lambda>j. res_point r u f n hi2 i j)) m
      })"

section \<open>The smoother over the special values of IEEE arithmetic\<close>

text \<open>
  The instance \<open>T = double\<close>, as far as overflow goes. A scalar is a number, an infinity
  with its sign (\<open>True\<close> for the negative one), or a NaN. A result of magnitude \<open>2\<^sup>1\<^sup>0\<^sup>2\<^sup>4\<close>
  or more is an infinity; infinity times zero and the difference of equal infinities are
  NaN; a NaN operand gives a NaN; every comparison with a NaN is false. Rounding of the
  results within the range, signed zeros and subnormal numbers are not modelled.
\<close>

datatype ieee = Number real | Infinite bool | NaN

definition ieee_round :: "real \<Rightarrow> ieee" where
  "ieee_round x = (if \<bar>x\<bar> < 2 ^ 1024 then Number x else Infinite (x < 0))"

fun ieee_times :: "ieee \<Rightarrow> ieee \<Rightarrow> ieee" where
  "ieee_times (Number x) (Number y) = ieee_round (x * y)"
| "ieee_times (Number x) (Infinite s) = (if x = 0 then NaN else Infinite (s \<noteq> (x < 0)))"
| "ieee_times (Infinite s) (Number y) = (if y = 0 then NaN else Infinite (s \<noteq> (y < 0)))"
| "ieee_times (Infinite s) (Infinite t) = Infinite (s \<noteq> t)"
| "ieee_times NaN y = NaN"
| "ieee_times x NaN = NaN"

fun ieee_minus :: "ieee \<Rightarrow> ieee \<Rightarrow> ieee" where
  "ieee_minus (Number x) (Number y) = ieee_round (x - y)"
| "ieee_minus (Number x) (Infinite s) = Infinite (\<not> s)"
| "ieee_minus (Infinite s) (Number y) = Infinite s"
| "ieee_minus (Infinite s) (Infinite t) = (if s = t then NaN else Infinite s)"
| "ieee_minus NaN y = NaN"
| "ieee_minus x NaN = NaN"

fun ieee_abs :: "ieee \<Rightarrow> ieee" where
  "ieee_abs (Number x) = Number \<bar>x\<bar>"
| "ieee_abs (Infinite s) = Infinite False"
| "ieee_abs NaN = NaN"

fun ieee_le :: "ieee \<Rightarrow> ieee \<Rightarrow> bool" where
  "ieee_le (Number x) (Number y) \<longleftrightarrow> x \<le> y"
| "ieee_le (Number x) (Infinite s) \<longleftrightarrow> \<not> s"
| "ieee_le (Infinite s) (Number y) \<longleftrightarrow> s"
| "ieee_le (Infinite s) (Infinite t) \<longleftrightarrow> s \<or> \<not> t"
| "ieee_le NaN y \<longleftrightarrow> False"
| "ieee_le x NaN \<longleftrightarrow> False"

text \<open>The assignment of the smoother loops and \<open>gauss_seidel\<close>, over these scalars.\<close>

definition gs_point_ieee ::
  "ptr \<Rightarrow> ptr \<Rightarrow> int \<Rightarrow> ieee \<Rightarrow> int \<Rightarrow> int \<Rightarrow> ieee store \<Rightarrow> ieee store option" where
  "gs_point_ieee u f n h i j m =
     do {
       k \<leftarrow> at_index j i n;
       fc \<leftarrow> ld m f k;
       j1 \<leftarrow> c_int (j + 1);
       ke \<leftarrow> at_index j1 i n;
       ue \<leftarrow> ld m u ke;
       j0 \<leftarrow> c_int (j - 1);
       kw \<leftarrow> at_index j0 i n;
       uw \<leftarrow> ld m u kw;
       i1 \<leftarrow> c_int (i + 1);
       ks \<leftarrow> at_index j i1 n;
       us \<leftarrow> ld m u ks;
       i0 \<leftarrow> c_int (i - 1);
       kn \<leftarrow> at_index j i0 n;
       un \<leftarrow> ld m u kn;
       st m u k
         (ieee_times (Number (- 0.25))
            (ieee_minus (ieee_minus (ieee_minus (ieee_minus
               (ieee_times (ieee_times h h) fc) ue) uw) us) un))
     }"

definition gauss_seidel_ieee :: "ptr \<Rightarrow> ptr \<Rightarrow> int \<Rightarrow> ieee \<Rightarrow> ieee store \<Rightarrow> ieee store option" where
  "gauss_seidel_ieee u f n h m =
     do {
       hi \<leftarrow> c_int (n - 1);
       for_loop 1 hi (\<lambda>i. for_loop 1 hi (\<lambda>j. gs_point_ieee u f n h i j)) m
     }"

section \<open>Arena size\<close>

text \<open>
  \<open>multigrid_size\<close> computes \<open>n\<close> and \<open>n * n\<close> in \<open>int\<close> (32 bits) and accumulates
  in \<open>size_t\<close> (64 bits); the conversion of the \<open>int\<close> product to \<open>size_t\<close> extends
  the sign. Signed overflow is undefined in C++; the model takes the two's-complement
  result, which is what the usual targets compute. A shift by 32 or more, undefined as
  well, gives 0 here.
\<close>

definition level_n :: "int \<Rightarrow> 32 word" where
  "level_n i = push_bit (nat i) 1 + 1"

function multigrid_size_loop :: "int \<Rightarrow> int \<Rightarrow> 64 word \<Rightarrow> 64 word" where
  "multigrid_size_loop i l size' =
     (if i \<le> l
      then multigrid_size_loop (i + 1) l (size' + scast (level_n i * level_n i))
      else size')"
  by pat_completeness auto
termination
  by (relation "measure (\<lambda>(i, l, size'). nat (l + 1 - i))") auto

declare multigrid_size_loop.simps [simp del]

definition multigrid_size :: "int \<Rightarrow> nat" where
  "multigrid_size l = unat (multigrid_size_loop 0 l 0)"

section \<open>Grid transfer and norms (external to the sources)\<close>

text \<open>Raw block access: the \<open>cnt\<close> elements a pointer designates.\<close>

definition in_block :: "memory \<Rightarrow> ptr \<Rightarrow> int \<Rightarrow> bool" where
  "in_block m p cnt \<longleftrightarrow> 0 \<le> snd p \<and> snd p + cnt \<le> int (length (m (fst p)))"

definition peek :: "memory \<Rightarrow> ptr \<Rightarrow> int \<Rightarrow> real list" where
  "peek m p cnt = take (nat cnt) (drop (nat (snd p)) (m (fst p)))"

definition ld_block :: "memory \<Rightarrow> ptr \<Rightarrow> int \<Rightarrow> real list option" where
  "ld_block m p cnt = (if in_block m p cnt then Some (peek m p cnt) else None)"

definition poke :: "memory \<Rightarrow> ptr \<Rightarrow> real list \<Rightarrow> memory" where
  "poke m p xs =
     m(fst p := take (nat (snd p)) (m (fst p)) @ xs @
                drop (nat (snd p) + length xs) (m (fst p)))"

definition st_block :: "memory \<Rightarrow> ptr \<Rightarrow> real list \<Rightarrow> memory option" where
  "st_block m p xs = (if in_block m p (int (length xs)) then Some (poke m p xs) else None)"

text \<open>
  A transfer operator gives, for the shapes of destination and source and the source
  values, the transferred field at each flat index of the destination.
\<close>

type_synonym transfer = "int \<Rightarrow> int \<Rightarrow> int \<Rightarrow> int \<Rightarrow> real list \<Rightarrow> nat \<Rightarrow> real"

record grid_ops =
  restriction :: transfer
  interpolation :: transfer

text \<open>
  Modelled from the spec: \<open>grid_restrict\<close> and \<open>grid_prolongate\<close> of \<open>grid.hpp\<close>,
  which is not among the sources. The spec gives
  \<open>dst \<leftarrow> existing_weight \<cdot> dst + incoming_weight \<cdot> Op(src)\<close> over a destination of
  shape \<open>dst_n \<times> dst_m\<close> and a source of shape \<open>src_n \<times> src_m\<close>; the operator \<open>Op\<close>
  itself is a parameter. Both touch their two blocks and nothing else.
\<close>

definition grid_transfer ::
  "transfer \<Rightarrow> ptr \<Rightarrow> int \<Rightarrow> int \<Rightarrow> ptr \<Rightarrow> int \<Rightarrow> int \<Rightarrow> real \<Rightarrow> real \<Rightarrow> memory \<Rightarrow> memory option" where
  "grid_transfer Op dst dst_n dst_m src src_n src_m a b m =
     do {
       s \<leftarrow> ld_block m src (src_n * src_m);
       d \<leftarrow> ld_block m dst (dst_n * dst_m);
       st_block m dst
         (map (\<lambda>k. a * d ! k + b * Op dst_n dst_m src_n src_m s k) [0..<nat (dst_n * dst_m)])
     }"

definition grid_restrict ::
  "grid_ops \<Rightarrow> ptr \<Rightarrow> int \<Rightarrow> int \<Rightarrow> ptr \<Rightarrow> int \<Rightarrow> int \<Rightarrow> real \<Rightarrow> real \<Rightarrow> memory \<Rightarrow> memory option" where
  "grid_restrict G = grid_transfer (restriction G)"

definition grid_prolongate ::
  "grid_ops \<Rightarrow> ptr \<Rightarrow> int \<Rightarrow> int \<Rightarrow> ptr \<Rightarrow> int \<Rightarrow> int \<Rightarrow> real \<Rightarrow> real \<Rightarrow> memory \<Rightarrow> memory option" where
  "grid_prolongate G = grid_transfer (interpolation G)"

text \<open>
  Modelled from the spec: \<open>grid_subtract\<close> of \<open>grid.hpp\<close>, which is not among the
  sources: elementwise \<open>dst = a - b\<close> over an \<open>n \<times> m\<close> field.
\<close>

definition grid_subtract :: "ptr \<Rightarrow> ptr \<Rightarrow> ptr \<Rightarrow> int \<Rightarrow> int \<Rightarrow> memory \<Rightarrow> memory option" where
  "grid_subtract dst a b n k m =
     do {
       xs \<leftarrow> ld_block m a (n * k);
       ys \<leftarrow> ld_block m b (n * k);
       st_block m dst (map2 (-) xs ys)
     }"

text \<open>
  Modelled from the spec: \<open>grid_l1norm\<close> of \<open>grid.hpp\<close>, which is not among the
  sources: the discrete L1 norm of an \<open>n \<times> m\<close> field, weighted by the cell area
  \<open>hx \<cdot> hy\<close>.
\<close>

definition grid_l1norm :: "ptr \<Rightarrow> int \<Rightarrow> int \<Rightarrow> real \<Rightarrow> real \<Rightarrow> memory \<Rightarrow> real option" where
  "grid_l1norm x n k hx hy m =
     do { xs \<leftarrow> ld_block m x (n * k); Some (hx * hy * sum_list (map abs xs)) }"

section \<open>The V-cycle\<close>

datatype smoother = GaussSeidel | GaussSeidelRedBlack

text \<open>\<open>S::operator()(T *u, T *f, const int n, const T h)\<close> of the two smoother classes.\<close>

fun smoother_call :: "smoother \<Rightarrow> ptr \<Rightarrow> ptr \<Rightarrow> int \<Rightarrow> real \<Rightarrow> memory \<Rightarrow> memory option" where
  "smoother_call GaussSeidel u f n h = gauss_seidel u f n h"
| "smoother_call GaussSeidelRedBlack u f n h = gauss_seidel_red_black u f n h"

definition base_case :: "ptr \<Rightarrow> ptr \<Rightarrow> real \<Rightarrow> memory \<Rightarrow> memory option" where
  "base_case u f h m =
     do { fc \<leftarrow> ld m f (1 + 3 * 1); st m u (1 + 3 * 1) (- 0.5 * fc * h * h) }"

text \<open>
  The state of a run is the memory together with a history of the calls made so far. The
  history is a ghost component: nothing reads it. Each entry records the callee with its
  actual arguments; the entry of a recursive call also records the contents of the
  correction field \<open>el\<close> at the moment of the call.
\<close>

datatype event =
    Call_smoother ptr ptr int real
  | Call_poisson_residual ptr ptr ptr int real
  | Call_grid_restrict ptr int int ptr int int real real
  | Call_multigrid_v_cycle int ptr ptr ptr ptr ptr real "real list"
  | Call_grid_prolongate ptr int int ptr int int real real

record state =
  mem :: memory
  history :: "event list"

definition call :: "event \<Rightarrow> (memory \<Rightarrow> memory option) \<Rightarrow> state \<Rightarrow> state option" where
  "call e k s = do { m' \<leftarrow> k (mem s); Some \<lparr>mem = m', history = history s @ [e]\<rparr> }"

definition inline :: "(memory \<Rightarrow> memory option) \<Rightarrow> state \<Rightarrow> state option" where
  "inline k s = do { m' \<leftarrow> k (mem s); Some (s\<lparr>mem := m'\<rparr>) }"

definition record_call :: "event \<Rightarrow> state \<Rightarrow> state" where
  "record_call e s = s\<lparr>history := history s @ [e]\<rparr>"

text \<open>
  The three \<open>int\<close> computations at the head of the recursive case: \<open>nu = (1 << l) + 1\<close>,
  \<open>nv = (1 << (l - 1)) + 1\<close> and the offset \<open>nv * nv\<close> of \<open>&v[nv * nv]\<close> and
  \<open>&w[nv * nv]\<close>.
\<close>

definition level_sizes :: "int \<Rightarrow> (int \<times> int \<times> int) option" where
  "level_sizes l =
     do {
       sl \<leftarrow> shift_left1 l;
       nu \<leftarrow> c_int (sl + 1);
       l1 \<leftarrow> c_int (l - 1);
       sv \<leftarrow> shift_left1 l1;
       nv \<leftarrow> c_int (sv + 1);
       k \<leftarrow> c_int (nv * nv);
       Some (nu, nv, k)
     }"

text \<open>
  For \<open>l < 1\<close> the source shifts by a negative count (at \<open>l = 0\<close> in
  \<open>1 << (l - 1)\<close>, below that in \<open>1 << l\<close>), which is undefined: the result is
  \<open>None\<close>, as it is when one of the three \<open>int\<close> computations overflows.
\<close>

function multigrid_v_cycle ::
  "grid_ops \<Rightarrow> int \<Rightarrow> smoother \<Rightarrow> ptr \<Rightarrow> ptr \<Rightarrow> ptr \<Rightarrow> ptr \<Rightarrow> ptr \<Rightarrow> real \<Rightarrow> state \<Rightarrow> state option" where
  "multigrid_v_cycle G l S u f r v w h s =
     (if l = 1 then inline (base_case u f h) s
      else if l < 1 then None
      else
        case level_sizes l of
            None \<Rightarrow> None
          | Some (nu, nv, k) \<Rightarrow>
        let el = ptr_add v k;
            rl = ptr_add w k
        in
          (case call (Call_smoother u f nu h) (smoother_call S u f nu h) s of
            None \<Rightarrow> None
          | Some s1 \<Rightarrow>
          (case call (Call_poisson_residual r u f nu h) (poisson_residual r u f nu h) s1 of
            None \<Rightarrow> None
          | Some s2 \<Rightarrow>
          (case call (Call_grid_restrict rl nv nv r nu nu 0.0 1.0)
                  (grid_restrict G rl nv nv r nu nu 0.0 1.0) s2 of
            None \<Rightarrow> None
          | Some s3 \<Rightarrow>
          (case multigrid_v_cycle G (l - 1) S el rl r v w (2 * h)
                  (record_call (Call_multigrid_v_cycle (l - 1) el rl r v w (2 * h)
                          (peek (mem s3) el k)) s3) of
            None \<Rightarrow> None
          | Some s4 \<Rightarrow>
          (case call (Call_grid_prolongate u nu nu el nv nv 1.0 1.0)
                  (grid_prolongate G u nu nu el nv nv 1.0 1.0) s4 of
            None \<Rightarrow> None
          | Some s5 \<Rightarrow>
              call (Call_smoother u f nu h) (smoother_call S u f nu h) s5))))))"
  by pat_completeness auto
termination
  by (relation "measure (\<lambda>(G, l, S, u, f, r, v, w, h, s). nat l)") auto

declare multigrid_v_cycle.simps [simp del]

section \<open>The driver\<close>

text \<open>
  \<open>malloc\<close> of \<open>cnt\<close> elements: a fresh block whose contents are indeterminate, given
  here by \<open>junk\<close>. A failing allocation is not modelled. \<open>memset\<close> with zero over the
  first \<open>cnt\<close> elements of a buffer.
\<close>

definition malloc :: "buffer \<Rightarrow> nat \<Rightarrow> (nat \<Rightarrow> real) \<Rightarrow> memory \<Rightarrow> memory" where
  "malloc b cnt junk m = m(b := map junk [0..<cnt])"

definition memset0 :: "ptr \<Rightarrow> nat \<Rightarrow> memory \<Rightarrow> memory option" where
  "memset0 p cnt m = st_block m p (replicate cnt 0)"

record multigrid =
  mg_l :: int
  mg_num :: nat
  mg_smoother :: smoother

text \<open>
  \<open>Multigrid(P& p)\<close>. \<open>num_bytes\<close> is kept as an element count. The size of \<open>r\<close> is
  \<open>sizeof(T) * n * n\<close> with \<open>int n = (1 << p.l) + 1\<close>, a \<open>size_t\<close> product.
\<close>

definition Multigrid_new ::
  "smoother \<Rightarrow> int \<Rightarrow> (buffer \<Rightarrow> nat \<Rightarrow> real) \<Rightarrow> memory \<Rightarrow> multigrid \<times> memory" where
  "Multigrid_new S p_l junk m =
     (let num = multigrid_size p_l;
          n = level_n p_l;
          m1 = malloc MV num (junk MV) m;
          m2 = malloc MW num (junk MW) m1;
          m3 = malloc MR (unat ((scast n :: 64 word) * scast n)) (junk MR) m2
      in (\<lparr>mg_l = p_l, mg_num = num, mg_smoother = S\<rparr>, m3))"

text \<open>\<open>Multigrid::operator()(P& p)\<close>, on the problem's \<open>u\<close>, \<open>f\<close> and \<open>h\<close>.\<close>

definition Multigrid_call :: "grid_ops \<Rightarrow> multigrid \<Rightarrow> real \<Rightarrow> state \<Rightarrow> state option" where
  "Multigrid_call G mg p_h s =
     do {
       s1 \<leftarrow> inline (memset0 (MV, 0) (mg_num mg)) s;
       s2 \<leftarrow> inline (memset0 (MW, 0) (mg_num mg)) s1;
       multigrid_v_cycle G (mg_l mg) (mg_smoother mg) (PU, 0) (PF, 0) (MR, 0) (MV, 0) (MW, 0) p_h s2
     }"

section \<open>The problem container\<close>

record poisson =
  p_n :: int
  p_l :: int
  p_h :: real
  p_modes :: real

definition fill_point :: "ptr \<Rightarrow> int \<Rightarrow> (int \<Rightarrow> int \<Rightarrow> real) \<Rightarrow> int \<Rightarrow> int \<Rightarrow> memory \<Rightarrow> memory option" where
  "fill_point x n g i j m = st m x (j + n * i) (g i j)"

definition forcing_function :: "ptr \<Rightarrow> int \<Rightarrow> real \<Rightarrow> real \<Rightarrow> memory \<Rightarrow> memory option" where
  "forcing_function f n h modes m =
     (let s = 2.0 * pi * modes / (h * real_of_int (n - 1))
      in do {
        m1 \<leftarrow> memset0 f (nat (n * n)) m;
        for_loop 0 n (\<lambda>i. for_loop 0 n
          (fill_point f n (\<lambda>i j. - 2 * s * s * sin (s * h * real_of_int i) * sin (s * h * real_of_int j)) i)) m1
      })"

definition exact_solution :: "ptr \<Rightarrow> int \<Rightarrow> real \<Rightarrow> real \<Rightarrow> memory \<Rightarrow> memory option" where
  "exact_solution u n h modes m =
     (let s = 2.0 * pi * modes / (h * real_of_int (n - 1))
      in for_loop 0 n (\<lambda>i. for_loop 0 n
          (fill_point u n (\<lambda>i j. sin (s * h * real_of_int j) * sin (s * h * real_of_int i)) i)) m)"

text \<open>\<open>Poisson(int l, T h, T modes)\<close>.\<close>

definition Poisson_new ::
  "int \<Rightarrow> real \<Rightarrow> real \<Rightarrow> (buffer \<Rightarrow> nat \<Rightarrow> real) \<Rightarrow> memory \<Rightarrow> (poisson \<times> memory) option" where
  "Poisson_new l h modes junk m =
     (let n = sint (level_n l);
          num = nat (n * n);
          m1 = malloc PR num (junk PR) (malloc PF num (junk PF) (malloc PU num (junk PU) m))
      in do {
        m2 \<leftarrow> memset0 (PU, 0) num m1;
        m3 \<leftarrow> memset0 (PF, 0) num m2;
        m4 \<leftarrow> memset0 (PR, 0) num m3;
        m5 \<leftarrow> forcing_function (PF, 0) n h modes m4;
        Some (\<lparr>p_n = n, p_l = l, p_h = h, p_modes = modes\<rparr>, m5)
      })"

text \<open>\<open>Poisson::error\<close>: the temporary \<open>v\<close> is the buffer \<open>ES\<close>, released at the end.\<close>

definition Poisson_error :: "poisson \<Rightarrow> (nat \<Rightarrow> real) \<Rightarrow> memory \<Rightarrow> (real \<times> memory) option" where
  "Poisson_error p junk m =
     (let num = nat (p_n p * p_n p)
      in do {
        m1 \<leftarrow> memset0 (ES, 0) num (malloc ES num junk m);
        m2 \<leftarrow> exact_solution (ES, 0) (p_n p) (p_h p) (p_modes p) m1;
        m3 \<leftarrow> grid_subtract (PR, 0) (PU, 0) (ES, 0) (p_n p) (p_n p) m2;
        err \<leftarrow> grid_l1norm (PR, 0) (p_n p) (p_n p) (p_h p) (p_h p) m3;
        Some (err, m3(ES := []))
      })"

definition Poisson_residual :: "poisson \<Rightarrow> memory \<Rightarrow> memory option" where
  "Poisson_residual p m = poisson_residual (PR, 0) (PU, 0) (PF, 0) (p_n p) (p_h p) m"

definition Poisson_norm :: "poisson \<Rightarrow> memory \<Rightarrow> real option" where
  "Poisson_norm p m = grid_l1norm (PR, 0) (p_n p) (p_n p) (p_h p) (p_h p) m"

section \<open>Notions used in the statements\<close>

text \<open>
  Row-major addressing of an \<open>n \<times> n\<close> field, \<open>index = j + i \<cdot> n\<close>, and the entry
  \<open>(i, j)\<close> of the field a pointer designates.
\<close>

definition idx :: "int \<Rightarrow> int \<Rightarrow> int \<Rightarrow> int" where
  "idx n i j = j + i * n"

definition entry :: "memory \<Rightarrow> ptr \<Rightarrow> int \<Rightarrow> int \<Rightarrow> int \<Rightarrow> real" where
  "entry m p n i j = cell m p (idx n i j)"

text \<open>
  Two memories of the same shape have the same buffer lengths. Two blocks of \<open>cnt\<close>
  elements are separate when they do not overlap.
\<close>

definition same_shape :: "memory \<Rightarrow> memory \<Rightarrow> bool" where
  "same_shape m m' \<longleftrightarrow> (\<forall>b. length (m' b) = length (m b))"

definition separate :: "ptr \<Rightarrow> ptr \<Rightarrow> int \<Rightarrow> bool" where
  "separate p q cnt \<longleftrightarrow> fst p \<noteq> fst q \<or> snd p + cnt \<le> snd q \<or> snd q + cnt \<le> snd p"

text \<open>
  The interior points \<open>1 \<le> i, j \<le> n - 2\<close>, and those of them that the row-major loop
  nest has visited when it arrives at \<open>(i, j)\<close>.
\<close>

definition interior :: "int \<Rightarrow> (int \<times> int) set" where
  "interior n = {(a, b). 1 \<le> a \<and> a \<le> n - 2 \<and> 1 \<le> b \<and> b \<le> n - 2}"

definition before :: "int \<Rightarrow> int \<Rightarrow> int \<Rightarrow> (int \<times> int) set" where
  "before n i j = {(a, b). (a, b) \<in> interior n \<and> (a < i \<or> (a = i \<and> b < j))}"

definition on_grid :: "int \<Rightarrow> int \<Rightarrow> int \<Rightarrow> bool" where
  "on_grid n i j \<longleftrightarrow> 0 \<le> i \<and> i < n \<and> 0 \<le> j \<and> j < n"

text \<open>The right-hand sides of the two assignments, read from a memory.\<close>

definition gs_value :: "ptr \<Rightarrow> ptr \<Rightarrow> int \<Rightarrow> real \<Rightarrow> int \<Rightarrow> int \<Rightarrow> memory \<Rightarrow> real" where
  "gs_value u f n h i j m =
     - 0.25 * (h * h * entry m f n i j - entry m u n i (j + 1) - entry m u n i (j - 1)
               - entry m u n (i + 1) j - entry m u n (i - 1) j)"

definition res_value :: "ptr \<Rightarrow> ptr \<Rightarrow> int \<Rightarrow> real \<Rightarrow> int \<Rightarrow> int \<Rightarrow> memory \<Rightarrow> real" where
  "res_value u f n h i j m =
     entry m f n i j - (entry m u n i (j + 1) + entry m u n i (j - 1) - 4 * entry m u n i j
               + entry m u n (i + 1) j + entry m u n (i - 1) j) / (h * h)"

text \<open>The addresses of the points of a set \<open>D\<close> in the field at \<open>u\<close>.\<close>

definition touched :: "ptr \<Rightarrow> int \<Rightarrow> (int \<times> int) set \<Rightarrow> buffer \<Rightarrow> nat \<Rightarrow> bool" where
  "touched u n D b k \<longleftrightarrow> (\<exists>(i, j) \<in> D. b = fst u \<and> int k = snd u + idx n i j)"

text \<open>
  A memory \<open>m'\<close> differs from \<open>m\<close> at most at the points of \<open>D\<close> in the field at
  \<open>u\<close>.
\<close>

definition frame :: "ptr \<Rightarrow> int \<Rightarrow> (int \<times> int) set \<Rightarrow> memory \<Rightarrow> memory \<Rightarrow> bool" where
  "frame u n D m m' \<longleftrightarrow> same_shape m m' \<and> (\<forall>b k. \<not> touched u n D b k \<longrightarrow> m' b ! k = m b ! k)"

text \<open>A caller applying smoothers to the same field again and again.\<close>

fun smooth_many :: "smoother list \<Rightarrow> ptr \<Rightarrow> ptr \<Rightarrow> int \<Rightarrow> real \<Rightarrow> memory \<Rightarrow> memory option" where
  "smooth_many [] u f n h m = Some m"
| "smooth_many (S # Ss) u f n h m =
     (case smoother_call S u f n h m of None \<Rightarrow> None | Some m1 \<Rightarrow> smooth_many Ss u f n h m1)"

text \<open>A small memory for examples: \<open>3 \<times> 3\<close> fields.\<close>

definition mem3 :: memory where
  "mem3 = (\<lambda>b. replicate 9 0)(PU := [1, 2, 3, 4, 5, 6, 7, 8, 9], PF := replicate 9 1,
                                 PR := replicate 9 5)"

text \<open>A memory of \<open>4 \<times> 4\<close> fields.\<close>

definition mem4 :: memory where
  "mem4 = (\<lambda>b. replicate 16 0)(PU := [1, 2, 3, 4, 5, 6, 7, 8, 9, 10, 11, 12, 13, 14, 15, 16],
                                  PF := replicate 16 1)"

text \<open>
  The points of one colour, and the pass as the spec words it: all points of the colour
  are updated simultaneously from the state at the start of the pass.
\<close>

definition colour_points :: "int \<Rightarrow> int \<Rightarrow> (int \<times> int) set" where
  "colour_points c n = {(i, j). (i, j) \<in> interior n \<and> (i + j) mod 2 = c}"

definition simultaneous_pass :: "int \<Rightarrow> ptr \<Rightarrow> ptr \<Rightarrow> int \<Rightarrow> real \<Rightarrow> memory \<Rightarrow> memory" where
  "simultaneous_pass c u f n h m =
     m(fst u :=
         map (\<lambda>k. let a = int k - snd u; i = a div n; j = a mod n
                  in if 0 \<le> a \<and> (i, j) \<in> colour_points c n
                     then gs_value u f n h i j m else m (fst u) ! k)
             [0..<length (m (fst u))])"

text \<open>The smoother's assignment applied at the points of a list, in the order of the list.\<close>

fun visit :: "(int \<Rightarrow> int \<Rightarrow> memory \<Rightarrow> memory option) \<Rightarrow> (int \<times> int) list \<Rightarrow> memory \<Rightarrow> memory option" where
  "visit body [] m = Some m"
| "visit body ((i, j) # ps) m =
     (case body i j m of None \<Rightarrow> None | Some m' \<Rightarrow> visit body ps m')"

definition pass_inv ::
  "int \<Rightarrow> ptr \<Rightarrow> ptr \<Rightarrow> int \<Rightarrow> real \<Rightarrow> memory \<Rightarrow> (int \<times> int) set \<Rightarrow> memory \<Rightarrow> bool" where
  "pass_inv c u f n h m D t \<longleftrightarrow>
     frame u n (D \<inter> colour_points c n) m t \<and>
     (\<forall>(a, b) \<in> D \<inter> colour_points c n. entry t u n a b = gs_value u f n h a b m)"

text \<open>The discrete maximum norm of an \<open>n \<times> n\<close> field.\<close>

definition max_norm :: "memory \<Rightarrow> ptr \<Rightarrow> int \<Rightarrow> real" where
  "max_norm m u n =
     Max (set (map (\<lambda>(i, j). \<bar>entry m u n i j\<bar>) (List.product [0..n - 1] [0..n - 1])))"

text \<open>
  A field is bounded by \<open>M\<close> with weights \<open>w\<close> when \<open>|u[i,j]| \<le> M \<cdot> w i j\<close> on the
  grid. Weights are admissible with factor \<open>q\<close> when they are non-negative and the
  mean of the four neighbours' weights is at most \<open>q\<close> times the weight of the point.
\<close>

definition bounded :: "memory \<Rightarrow> ptr \<Rightarrow> int \<Rightarrow> real \<Rightarrow> (int \<Rightarrow> int \<Rightarrow> real) \<Rightarrow> bool" where
  "bounded m u n M w \<longleftrightarrow> (\<forall>a b. on_grid n a b \<longrightarrow> \<bar>entry m u n a b\<bar> \<le> M * w a b)"

definition admissible :: "int \<Rightarrow> (int \<Rightarrow> int \<Rightarrow> real) \<Rightarrow> real \<Rightarrow> bool" where
  "admissible n w q \<longleftrightarrow>
     0 \<le> q \<and> q \<le> 1 \<and> (\<forall>a b. on_grid n a b \<longrightarrow> 0 \<le> w a b) \<and>
     (\<forall>(i, j) \<in> interior n. w i (j + 1) + w i (j - 1) + w (i + 1) j + w (i - 1) j \<le> 4 * q * w i j)"

text \<open>A homogeneous problem: \<open>f\<close> is zero, and \<open>u\<close> is zero on the boundary.\<close>

definition homogeneous :: "memory \<Rightarrow> ptr \<Rightarrow> ptr \<Rightarrow> int \<Rightarrow> bool" where
  "homogeneous m u f n \<longleftrightarrow>
     (\<forall>i j. on_grid n i j \<longrightarrow> entry m f n i j = 0) \<and>
     (\<forall>i j. on_grid n i j \<and> (i = 0 \<or> i = n - 1 \<or> j = 0 \<or> j = n - 1) \<longrightarrow> entry m u n i j = 0)"

text \<open>A weight that is strictly superharmonic on the grid: \<open>n\<^sup>2 - i\<^sup>2\<close>.\<close>

definition barrier :: "int \<Rightarrow> int \<Rightarrow> int \<Rightarrow> real" where
  "barrier n i j = real_of_int (n * n - i * i)"

definition rate :: "int \<Rightarrow> real" where
  "rate n = 1 - 1 / (2 * real_of_int (n * n))"

text \<open>
  A \<open>4 \<times> 4\<close> problem with zero right-hand side, zero boundary values and the value 8 at
  the four interior points; and the field \<open>u\<close> after one and after two sweeps of
  \<open>gauss_seidel\<close>.
\<close>

definition mem4h :: memory where
  "mem4h = (\<lambda>b. replicate 16 0)(PU := [0, 0, 0, 0, 0, 8, 8, 0, 0, 8, 8, 0, 0, 0, 0, 0])"

definition mem4h1 :: memory where
  "mem4h1 = mem4h(PU := [0, 0, 0, 0, 0, 4, 3, 0, 0, 3, 3 / 2, 0, 0, 0, 0, 0])"

definition mem4h2 :: memory where
  "mem4h2 = mem4h(PU := [0, 0, 0, 0, 0, 3 / 2, 3 / 4, 0, 0, 3 / 4, 3 / 8, 0, 0, 0, 0, 0])"

text \<open>
  A \<open>3 \<times> 3\<close> problem over the IEEE scalars with zero right-hand side, zero boundary
  values and \<open>u[1,1] = 8\<close>; and the same with a NaN at \<open>u[1,1]\<close>.
\<close>

definition mem3i :: "ieee store" where
  "mem3i = (\<lambda>b. replicate 9 (Number 0))
             (PU := [Number 0, Number 0, Number 0, Number 0, Number 8,
                     Number 0, Number 0, Number 0, Number 0])"

definition mem3i_nan :: "ieee store" where
  "mem3i_nan = mem3i(PU := [Number 0, Number 0, Number 0, Number 0, NaN,
                            Number 0, Number 0, Number 0, Number 0])"

text \<open>
  Memories whose buffers all hold \<open>46341\<^sup>2\<close>, respectively \<open>65537\<^sup>2\<close>, zeros: fields for
  \<open>n = 46341\<close>, the least \<open>n\<close> with \<open>n\<^sup>2 \<ge> 2\<^sup>3\<^sup>1\<close>, and for level 16; and the driver
  constructed for level 16 over the latter.
\<close>

definition mem46341 :: memory where
  "mem46341 = (\<lambda>b. replicate 2147488281 0)"

definition mem65537 :: memory where
  "mem65537 = (\<lambda>b. replicate 4295098369 0)"

definition driver16 :: "multigrid \<times> memory" where
  "driver16 = Multigrid_new GaussSeidel 16 (\<lambda>b k. 0) mem65537"

text \<open>The linear dimension \<open>n(l) = 2\<^sup>l + 1\<close> of level \<open>l\<close> and its number of cells.\<close>

definition level_dim :: "int \<Rightarrow> int" where
  "level_dim l = 2 ^ nat l + 1"

definition level_cells :: "int \<Rightarrow> int" where
  "level_cells l = level_dim l * level_dim l"

text \<open>A memory \<open>m'\<close> differs from \<open>m\<close> at most inside the block of \<open>cnt\<close> elements at \<open>p\<close>.\<close>

definition writes_within :: "ptr \<Rightarrow> int \<Rightarrow> memory \<Rightarrow> memory \<Rightarrow> bool" where
  "writes_within p cnt m m' \<longleftrightarrow>
     same_shape m m' \<and>
     (\<forall>b k. \<not> (b = fst p \<and> snd p \<le> int k \<and> int k < snd p + cnt) \<longrightarrow> m' b ! k = m b ! k)"

text \<open>A buffer is zero at the addresses from \<open>lo\<close> up to \<open>hi\<close>.\<close>

definition zero_on :: "memory \<Rightarrow> buffer \<Rightarrow> int \<Rightarrow> int \<Rightarrow> bool" where
  "zero_on m b lo hi \<longleftrightarrow> (\<forall>k. lo \<le> int k \<and> int k < hi \<longrightarrow> m b ! k = 0)"

text \<open>
  What a history says about the recursion: the recursive calls with their level and the
  two fields carved for them, the contents of the correction field at each of these
  calls, and the sizes the smoother was called with.
\<close>

fun recursions :: "event list \<Rightarrow> (int \<times> ptr \<times> ptr) list" where
  "recursions [] = []"
| "recursions (Call_multigrid_v_cycle l el rl r v w h e # es) = (l, el, rl) # recursions es"
| "recursions (_ # es) = recursions es"

fun snapshots :: "event list \<Rightarrow> real list list" where
  "snapshots [] = []"
| "snapshots (Call_multigrid_v_cycle l el rl r v w h e # es) = e # snapshots es"
| "snapshots (_ # es) = snapshots es"

fun smoother_dims :: "event list \<Rightarrow> int list" where
  "smoother_dims [] = []"
| "smoother_dims (Call_smoother u f n h # es) = n # smoother_dims es"
| "smoother_dims (_ # es) = smoother_dims es"

text \<open>The fields carved from the arenas \<open>v\<close> and \<open>w\<close> for the solve at level \<open>k\<close>.\<close>

definition carved :: "ptr \<Rightarrow> ptr \<Rightarrow> int \<Rightarrow> int \<times> ptr \<times> ptr" where
  "carved v w k = (k, ptr_add v (level_cells k), ptr_add w (level_cells k))"

text \<open>
  What a call at level \<open>l\<close> needs of the memory: fields \<open>u\<close>, \<open>f\<close> and \<open>r\<close> of
  \<open>n(l)\<^sup>2\<close> elements, and arenas that reach up to twice \<open>n(l - 1)\<^sup>2\<close>.
\<close>

definition ready :: "int \<Rightarrow> ptr \<Rightarrow> ptr \<Rightarrow> ptr \<Rightarrow> ptr \<Rightarrow> ptr \<Rightarrow> memory \<Rightarrow> bool" where
  "ready l u f r v w m \<longleftrightarrow>
     in_block m u (level_cells l) \<and> in_block m f (level_cells l) \<and> in_block m r (level_cells l) \<and>
     in_block m v (2 * level_cells (l - 1)) \<and> in_block m w (2 * level_cells (l - 1))"

text \<open>
  The arena \<open>v\<close> is zero below twice \<open>n(l - 1)\<^sup>2\<close>, and neither \<open>u\<close> nor \<open>r\<close> nor the
  arena \<open>w\<close> lies there.
\<close>

definition cleared :: "int \<Rightarrow> ptr \<Rightarrow> ptr \<Rightarrow> ptr \<Rightarrow> ptr \<Rightarrow> memory \<Rightarrow> bool" where
  "cleared l u r v w m \<longleftrightarrow>
     zero_on m (fst v) (snd v) (snd v + 2 * level_cells (l - 1)) \<and>
     fst r \<noteq> fst v \<and> fst w \<noteq> fst v \<and>
     (fst u \<noteq> fst v \<or> snd v + 2 * level_cells (l - 1) \<le> snd u)"

text \<open>
  Transfer operators for examples: restriction by injection of every second point, and
  interpolation by copying the nearest coarse point.
\<close>

definition sample_ops :: grid_ops where
  "sample_ops =
     \<lparr>restriction = (\<lambda>dn dm sn sm s k. s ! (2 * (k mod nat dm) + 2 * (k div nat dm) * nat sm)),
      interpolation = (\<lambda>dn dm sn sm s k. s ! ((k mod nat dm) div 2 + ((k div nat dm) div 2) * nat sm))\<rparr>"

text \<open>A memory for a solve at level 2: fields of \<open>5 \<times> 5\<close>, arenas of \<open>4 + 9 + 25\<close> elements.\<close>

definition mem5 :: memory where
  "mem5 = (\<lambda>b. [])(PU := replicate 25 0, PF := replicate 25 1, MR := replicate 25 7,
                    MV := replicate 38 0, MW := replicate 38 0)"

text \<open>The scenario of the spec for the base case: \<open>f[1,1] = 4\<close>, to be run with \<open>h = 0.5\<close>.\<close>

definition mem3s :: memory where
  "mem3s = (\<lambda>b. replicate 9 0)(PF := [0, 0, 0, 0, 4, 0, 0, 0, 0])"

text \<open>
  A memory for a solve at level 3: fields of \<open>9 \<times> 9\<close>, arenas of \<open>4 + 9 + 25 + 81\<close>
  elements; and a driver for level 3 constructed over it, its three allocations filled
  with the value 5.
\<close>

definition mem9 :: memory where
  "mem9 = (\<lambda>b. [])(PU := replicate 81 0, PF := replicate 81 1, MR := replicate 81 7,
                    MV := replicate 119 0, MW := replicate 119 0)"

definition driver3 :: "multigrid \<times> memory" where
  "driver3 = Multigrid_new GaussSeidel 3 (\<lambda>b k. 5) mem9"

text \<open>
  The manufactured exact solution at the point \<open>(i, j)\<close>, as \<open>exact_solution\<close> computes
  it, and the field of these values in row-major order.
\<close>

definition exact_value :: "int \<Rightarrow> real \<Rightarrow> real \<Rightarrow> int \<Rightarrow> int \<Rightarrow> real" where
  "exact_value n h modes i j =
     (let s = 2.0 * pi * modes / (h * real_of_int (n - 1))
      in sin (s * h * real_of_int j) * sin (s * h * real_of_int i))"

definition exact_field :: "int \<Rightarrow> real \<Rightarrow> real \<Rightarrow> real list" where
  "exact_field n h modes =
     map (\<lambda>k. exact_value n h modes (int k div n) (int k mod n)) [0..<nat (n * n)]"

section \<open>Memory and loops\<close>

lemma same_shape_refl [simp]: "same_shape m m"
  by (simp add: same_shape_def)

lemma same_shape_trans: "same_shape a b \<Longrightarrow> same_shape b c \<Longrightarrow> same_shape a c"
  by (simp add: same_shape_def)

lemma same_shape_upd [simp]: "same_shape m (upd m p k x)"
  by (simp add: same_shape_def upd_def)

lemma in_block_shape: "same_shape m m' \<Longrightarrow> in_block m' p c = in_block m p c"
  by (simp add: same_shape_def in_block_def)

lemma valid_shape: "same_shape m m' \<Longrightarrow> valid m' p k = valid m p k"
  by (simp add: same_shape_def valid_def)

lemma idx_bounds:
  assumes "0 \<le> i" "i < n" "0 \<le> j" "j < n"
  shows "0 \<le> idx n i j" "idx n i j < n * n"
proof -
  have "0 \<le> i * n" using assms by simp
  then show "0 \<le> idx n i j" using assms by (simp add: idx_def)
  have "i * n \<le> (n - 1) * n" using assms by (intro mult_right_mono) auto
  then show "idx n i j < n * n" using assms by (simp add: idx_def algebra_simps)
qed

lemma idx_inj:
  assumes "0 \<le> j" "j < n" "0 \<le> b" "b < n" "idx n i j = idx n a b"
  shows "i = a \<and> j = b"
proof -
  have "(j + i * n) div n = i" "(j + i * n) mod n = j"
       "(b + a * n) div n = a" "(b + a * n) mod n = b"
    using assms by simp_all
  then show ?thesis using assms(5) unfolding idx_def by metis
qed

lemma valid_in_block:
  "in_block m p c \<Longrightarrow> 0 \<le> k \<Longrightarrow> k < c \<Longrightarrow> valid m p k"
  by (auto simp: in_block_def valid_def)

lemma valid_idx:
  "in_block m p (n * n) \<Longrightarrow> 0 \<le> i \<Longrightarrow> i < n \<Longrightarrow> 0 \<le> j \<Longrightarrow> j < n \<Longrightarrow> valid m p (idx n i j)"
  using idx_bounds [of i n j] by (auto intro: valid_in_block)

lemma cell_upd_same: "valid m p k \<Longrightarrow> cell (upd m p k x) p k = x"
  by (simp add: cell_def upd_def valid_def nat_less_iff)

lemma cell_upd_other:
  "fst q \<noteq> fst p \<or> snd q + k' \<noteq> snd p + k \<Longrightarrow> 0 \<le> snd q + k' \<Longrightarrow> 0 \<le> snd p + k
   \<Longrightarrow> cell (upd m p k x) q k' = cell m q k'"
  by (auto simp: cell_def upd_def)

lemma upd_frame:
  "\<not> (b = fst p \<and> int a = snd p + k) \<Longrightarrow> 0 \<le> snd p + k \<Longrightarrow> upd m p k x b ! a = m b ! a"
  by (auto simp: upd_def)

lemma for_loop_rule:
  assumes "I i s"
    and "\<And>k t. i \<le> k \<Longrightarrow> k < hi \<Longrightarrow> I k t \<Longrightarrow> \<exists>t'. body k t = Some t' \<and> I (k + 1) t'"
  shows "\<exists>s'. for_loop i hi body s = Some s' \<and> I (max i hi) s'"
  using assms
proof (induction i hi body s rule: for_loop.induct)
  case (1 i hi body s)
  show ?case
  proof (cases "i < hi")
    case False
    then show ?thesis using "1.prems"(1) by (simp add: for_loop.simps max_def)
  next
    case True
    from "1.prems"(2) [OF _ True "1.prems"(1)]
    obtain t where t: "body i s = Some t" "I (i + 1) t" by auto
    have "\<exists>s'. for_loop (i + 1) hi body t = Some s' \<and> I (max (i + 1) hi) s'"
      by (rule "1.IH" [OF True t(1) t(2)]) (use "1.prems"(2) in auto)
    then show ?thesis
      using True t by (subst for_loop.simps) (auto simp: max_def)
  qed
qed

lemma before_start: "before n 1 1 = {}"
  by (auto simp: before_def interior_def)

lemma before_step:
  "1 \<le> i \<Longrightarrow> i \<le> n - 2 \<Longrightarrow> 1 \<le> j \<Longrightarrow> j \<le> n - 2
   \<Longrightarrow> before n i (j + 1) = insert (i, j) (before n i j)"
  by (auto simp: before_def interior_def)

lemma before_row: "1 \<le> i \<Longrightarrow> before n i (n - 1) = before n (i + 1) 1"
  by (auto simp: before_def interior_def)

lemma before_end: "before n (max 1 (n - 1)) 1 = interior n"
  by (auto simp: before_def interior_def max_def)

lemma sweep_rule:
  assumes init: "Q {} m"
    and step: "\<And>i j t. (i, j) \<in> interior n \<Longrightarrow> Q (before n i j) t
                \<Longrightarrow> \<exists>t'. body i j t = Some t' \<and> Q (insert (i, j) (before n i j)) t'"
  shows "\<exists>m'. for_loop 1 (n - 1) (\<lambda>i. for_loop 1 (n - 1) (body i)) m = Some m' \<and> Q (interior n) m'"
proof -
  have inner: "\<exists>t'. for_loop 1 (n - 1) (body i) t = Some t' \<and> Q (before n (i + 1) 1) t'"
    if i: "1 \<le> i" "i < n - 1" and Q: "Q (before n i 1) t" for i t
  proof -
    have "\<exists>t'. for_loop 1 (n - 1) (body i) t = Some t' \<and> Q (before n i (max 1 (n - 1))) t'"
    proof (rule for_loop_rule [where I = "\<lambda>j. Q (before n i j)"])
      show "Q (before n i 1) t" by (rule Q)
    next
      fix k t assume k: "1 \<le> k" "k < n - 1" and "Q (before n i k) t"
      then show "\<exists>t'. body i k t = Some t' \<and> Q (before n i (k + 1)) t'"
        using step [of i k t] i by (simp add: before_step interior_def)
    qed
    moreover have "max 1 (n - 1) = n - 1" using i by simp
    ultimately show ?thesis using i by (simp add: before_row)
  qed
  have "\<exists>m'. for_loop 1 (n - 1) (\<lambda>i. for_loop 1 (n - 1) (body i)) m = Some m'
          \<and> Q (before n (max 1 (n - 1)) 1) m'"
    by (rule for_loop_rule [where I = "\<lambda>i. Q (before n i 1)"])
       (use init inner in \<open>simp_all add: before_start\<close>)
  then show ?thesis by (simp add: before_end)
qed

lemma interior_on_grid:
  "(i, j) \<in> interior n \<Longrightarrow>
     on_grid n i j \<and> on_grid n i (j + 1) \<and> on_grid n i (j - 1) \<and> on_grid n (i + 1) j \<and> on_grid n (i - 1) j"
  by (auto simp: interior_def on_grid_def)

lemma valid_on_grid: "in_block m p (n * n) \<Longrightarrow> on_grid n i j \<Longrightarrow> valid m p (idx n i j)"
  by (simp add: on_grid_def valid_idx)

lemma ld_on_grid: "in_block m p (n * n) \<Longrightarrow> on_grid n i j \<Longrightarrow> ld m p (idx n i j) = Some (entry m p n i j)"
  by (simp add: ld_def valid_on_grid entry_def)

lemma idx_shift:
  "j + 1 + i * n = idx n i (j + 1)" "j - 1 + i * n = idx n i (j - 1)"
  "j + (i + 1) * n = idx n (i + 1) j" "j + (i - 1) * n = idx n (i - 1) j"
  "j + i * n = idx n i j"
  by (simp_all add: idx_def)

lemma c_int_Some: "- (2 ^ 31) \<le> x \<Longrightarrow> x < 2 ^ 31 \<Longrightarrow> c_int x = Some x"
  by (simp add: c_int_def)

lemma small_dim:
  assumes "n * n < (2 ^ 31 :: int)"
  shows "- (2 ^ 31) < n" "n < 2 ^ 31"
proof -
  have "\<bar>n\<bar> \<le> n * n"
  proof (cases "n = 0")
    case False
    then have "1 \<le> \<bar>n\<bar>" by simp
    then have "\<bar>n\<bar> * 1 \<le> \<bar>n\<bar> * \<bar>n\<bar>" by (intro mult_left_mono) simp_all
    then show ?thesis by simp
  qed simp
  then have "\<bar>n\<bar> < 2 ^ 31" using assms by simp
  then show "- (2 ^ 31) < n" "n < 2 ^ 31" by simp_all
qed

lemma loop_bound: "n * n < 2 ^ 31 \<Longrightarrow> c_int (n - 1) = Some (n - 1)"
  using small_dim [of n] by (simp add: c_int_def)

lemma c_int_on_grid:
  assumes "on_grid n i j" "n * n < 2 ^ 31"
  shows "c_int i = Some i" "c_int j = Some j" "c_int (i + j) = Some (i + j)"
proof -
  have n: "n < 2 ^ 31" using small_dim [OF assms(2)] by simp
  have ij: "0 \<le> i" "i < n" "0 \<le> j" "j < n" using assms(1) by (simp_all add: on_grid_def)
  show "c_int i = Some i" "c_int j = Some j" using n ij by (simp_all add: c_int_def)
  have "i * n \<le> (n - 1) * n" using ij by (intro mult_right_mono) auto
  moreover have "i \<le> i * n" using ij by (simp add: mult_le_cancel_left1)
  ultimately have "i + j < n * n" using ij by (simp add: algebra_simps)
  then show "c_int (i + j) = Some (i + j)" using assms(2) ij by (simp add: c_int_def)
qed

lemma at_index_on_grid:
  assumes "on_grid n i j" "n * n < 2 ^ 31"
  shows "at_index j i n = Some (idx n i j)"
proof -
  have ij: "0 \<le> i" "i < n" "0 \<le> j" "j < n" using assms(1) by (simp_all add: on_grid_def)
  have b: "0 \<le> idx n i j" "idx n i j < n * n" using idx_bounds [OF ij] by simp_all
  have "0 \<le> i * n" using ij by simp
  moreover have "i * n \<le> idx n i j" using ij by (simp add: idx_def)
  ultimately have "c_int (i * n) = Some (i * n)"
    using b assms(2) by (simp add: c_int_def)
  moreover have "c_int (j + i * n) = Some (idx n i j)"
    using b assms(2) by (simp add: c_int_def idx_def)
  ultimately show ?thesis by (simp add: at_index_def)
qed

lemma gs_point_eq:
  assumes "in_block m u (n * n)" "in_block m f (n * n)" "(i, j) \<in> interior n"
    and nb: "n * n < 2 ^ 31"
  shows "gs_point u f n h i j m = Some (upd m u (idx n i j) (gs_value u f n h i j m))"
proof -
  note g = interior_on_grid [OF assms(3)]
  have c: "c_int (j + 1) = Some (j + 1)" "c_int (j - 1) = Some (j - 1)"
          "c_int (i + 1) = Some (i + 1)" "c_int (i - 1) = Some (i - 1)"
    using g c_int_on_grid [OF _ nb] by blast+
  show ?thesis
    unfolding gs_point_def
    using g assms(1,2) nb
    by (simp add: c at_index_on_grid ld_on_grid st_def valid_on_grid gs_value_def)
qed

lemma res_point_eq:
  assumes "in_block m r (n * n)" "in_block m u (n * n)" "in_block m f (n * n)" "(i, j) \<in> interior n"
    and nb: "n * n < 2 ^ 31"
  shows "res_point r u f n (1.0 / (h * h)) i j m = Some (upd m r (idx n i j) (res_value u f n h i j m))"
proof -
  note g = interior_on_grid [OF assms(4)]
  have c: "c_int (j + 1) = Some (j + 1)" "c_int (j - 1) = Some (j - 1)"
          "c_int (i + 1) = Some (i + 1)" "c_int (i - 1) = Some (i - 1)"
    using g c_int_on_grid [OF _ nb] by blast+
  show ?thesis
    unfolding res_point_def
    using g assms(1,2,3) nb
    by (simp add: c at_index_on_grid ld_on_grid st_def valid_on_grid res_value_def)
qed

lemma rb_point_eq:
  assumes "(i, j) \<in> interior n" "n * n < 2 ^ 31"
  shows "rb_point c u f n h i j m = (if (i + j) mod 2 = c then gs_point u f n h i j m else Some m)"
  using c_int_on_grid(3) [OF _ assms(2), of i j] interior_on_grid [OF assms(1)]
  by (simp add: rb_point_def)

lemma gauss_seidel_loops:
  "n * n < 2 ^ 31 \<Longrightarrow>
   gauss_seidel u f n h m = for_loop 1 (n - 1) (\<lambda>i. for_loop 1 (n - 1) (\<lambda>j. gs_point u f n h i j)) m"
  by (simp add: gauss_seidel_def loop_bound)

lemma rb_pass_loops:
  "n * n < 2 ^ 31 \<Longrightarrow>
   rb_pass c u f n h m = for_loop 1 (n - 1) (\<lambda>i. for_loop 1 (n - 1) (\<lambda>j. rb_point c u f n h i j)) m"
  by (simp add: rb_pass_def loop_bound)

lemma poisson_residual_loops:
  "n * n < 2 ^ 31 \<Longrightarrow>
   poisson_residual r u f n h m =
     for_loop 1 (n - 1) (\<lambda>i. for_loop 1 (n - 1) (\<lambda>j. res_point r u f n (1.0 / (h * h)) i j)) m"
  by (simp add: poisson_residual_def loop_bound)

lemma entry_upd:
  assumes "in_block m p (n * n)" "on_grid n i j" "on_grid n a b"
  shows "entry (upd m p (idx n i j) x) p n a b = (if a = i \<and> b = j then x else entry m p n a b)"
proof (cases "a = i \<and> b = j")
  case True
  then show ?thesis using assms by (simp add: entry_def cell_upd_same valid_on_grid)
next
  case False
  have ne: "idx n a b \<noteq> idx n i j"
    using idx_inj [of b n j a i] False assms(2,3) by (auto simp: on_grid_def)
  have "0 \<le> snd p + idx n a b" "0 \<le> snd p + idx n i j"
    using valid_on_grid [OF assms(1)] assms(2,3) by (auto simp: valid_def)
  then have "cell (upd m p (idx n i j) x) p (idx n a b) = cell m p (idx n a b)"
    using ne by (intro cell_upd_other) auto
  then show ?thesis using False by (auto simp: entry_def)
qed

lemma entry_upd_separate:
  assumes "in_block m p (n * n)" "in_block m q (n * n)" "separate p q (n * n)"
    "on_grid n i j" "on_grid n a b"
  shows "entry (upd m p (idx n i j) x) q n a b = entry m q n a b"
proof -
  have v: "valid m p (idx n i j)" "valid m q (idx n a b)"
    using assms by (simp_all add: valid_on_grid)
  have "idx n i j < n * n" "idx n a b < n * n" "0 \<le> idx n i j" "0 \<le> idx n a b"
    using assms(4,5) idx_bounds by (auto simp: on_grid_def)
  then have "fst q \<noteq> fst p \<or> snd q + idx n a b \<noteq> snd p + idx n i j"
    using assms(3) by (auto simp: separate_def)
  then show ?thesis using v by (simp add: entry_def cell_upd_other valid_def)
qed

lemma touched_insert:
  "touched u n (insert (i, j) D) b k \<longleftrightarrow> (b = fst u \<and> int k = snd u + idx n i j) \<or> touched u n D b k"
  by (auto simp: touched_def)

lemma touched_empty [simp]: "\<not> touched u n {} b k"
  by (simp add: touched_def)

lemma touched_mono: "D \<subseteq> E \<Longrightarrow> touched u n D b k \<Longrightarrow> touched u n E b k"
  by (auto simp: touched_def)

lemma frame_refl [simp]: "frame u n D m m"
  by (simp add: frame_def)

lemma frame_in_block: "frame u n D m t \<Longrightarrow> in_block m p c \<Longrightarrow> in_block t p c"
  by (simp add: frame_def same_shape_def in_block_def)

lemma frame_upd:
  assumes "frame u n D m t" "in_block m u (n * n)" "on_grid n i j"
  shows "frame u n (insert (i, j) D) m (upd t u (idx n i j) x)"
proof -
  have "in_block t u (n * n)" using assms by (auto intro: frame_in_block)
  then have "0 \<le> snd u + idx n i j"
    using valid_on_grid [of t u n i j] assms(3) by (simp add: valid_def)
  then show ?thesis
    using assms(1) same_shape_trans [OF _ same_shape_upd]
    by (auto simp: frame_def touched_insert upd_frame)
qed

lemma frame_mono: "frame u n D m m' \<Longrightarrow> D \<subseteq> E \<Longrightarrow> frame u n E m m'"
  by (auto simp: frame_def dest: touched_mono)

lemma frame_trans: "frame u n D m m1 \<Longrightarrow> frame u n D m1 m2 \<Longrightarrow> frame u n D m m2"
  by (auto simp: frame_def dest: same_shape_trans)

lemma gauss_seidel_frame:
  assumes "in_block m u (n * n)" "in_block m f (n * n)" and nb: "n * n < 2 ^ 31"
  shows "\<exists>m'. gauss_seidel u f n h m = Some m' \<and> frame u n (interior n) m m'"
  unfolding gauss_seidel_loops [OF nb]
proof (rule sweep_rule [where Q = "\<lambda>D. frame u n D m"])
  show "frame u n {} m m" by simp
next
  fix i j t assume ij: "(i, j) \<in> interior n" and fr: "frame u n (before n i j) m t"
  have "in_block t u (n * n)" "in_block t f (n * n)"
    using fr assms by (auto intro: frame_in_block)
  then have "gs_point u f n h i j t = Some (upd t u (idx n i j) (gs_value u f n h i j t))"
    using ij nb by (rule gs_point_eq)
  moreover have "frame u n (insert (i, j) (before n i j)) m (upd t u (idx n i j) (gs_value u f n h i j t))"
    using fr assms(1) interior_on_grid [OF ij] by (simp add: frame_upd)
  ultimately show "\<exists>t'. gs_point u f n h i j t = Some t' \<and> frame u n (insert (i, j) (before n i j)) m t'"
    by simp
qed

lemma rb_pass_frame:
  assumes "in_block m u (n * n)" "in_block m f (n * n)" and nb: "n * n < 2 ^ 31"
  shows "\<exists>m'. rb_pass c u f n h m = Some m' \<and> frame u n (interior n) m m'"
  unfolding rb_pass_loops [OF nb]
proof (rule sweep_rule [where Q = "\<lambda>D. frame u n D m"])
  show "frame u n {} m m" by simp
next
  fix i j t assume ij: "(i, j) \<in> interior n" and fr: "frame u n (before n i j) m t"
  have "in_block t u (n * n)" "in_block t f (n * n)"
    using fr assms by (auto intro: frame_in_block)
  then have "gs_point u f n h i j t = Some (upd t u (idx n i j) (gs_value u f n h i j t))"
    using ij nb by (rule gs_point_eq)
  moreover have "frame u n (insert (i, j) (before n i j)) m (upd t u (idx n i j) (gs_value u f n h i j t))"
    using fr assms(1) interior_on_grid [OF ij] by (simp add: frame_upd)
  moreover have "frame u n (insert (i, j) (before n i j)) m t"
    using fr by (rule frame_mono) auto
  ultimately show "\<exists>t'. rb_point c u f n h i j t = Some t'
        \<and> frame u n (insert (i, j) (before n i j)) m t'"
    by (simp add: rb_point_eq [OF ij nb])
qed

lemma gauss_seidel_red_black_frame:
  assumes "in_block m u (n * n)" "in_block m f (n * n)" and nb: "n * n < 2 ^ 31"
  shows "\<exists>m'. gauss_seidel_red_black u f n h m = Some m' \<and> frame u n (interior n) m m'"
proof -
  obtain m1 where m1: "rb_pass 0 u f n h m = Some m1" "frame u n (interior n) m m1"
    using rb_pass_frame [OF assms] by blast
  have "in_block m1 u (n * n)" "in_block m1 f (n * n)"
    using m1(2) assms by (auto intro: frame_in_block)
  then obtain m2 where m2: "rb_pass 1 u f n h m1 = Some m2" "frame u n (interior n) m1 m2"
    using rb_pass_frame nb by blast
  show ?thesis
    using m1 m2 by (auto simp: gauss_seidel_red_black_def intro: frame_trans)
qed

lemma poisson_residual_frame:
  assumes "in_block m r (n * n)" "in_block m u (n * n)" "in_block m f (n * n)"
    and nb: "n * n < 2 ^ 31"
  shows "\<exists>m'. poisson_residual r u f n h m = Some m' \<and> frame r n (interior n) m m'"
  unfolding poisson_residual_loops [OF nb]
proof (rule sweep_rule [where Q = "\<lambda>D. frame r n D m"])
  show "frame r n {} m m" by simp
next
  fix i j t assume ij: "(i, j) \<in> interior n" and fr: "frame r n (before n i j) m t"
  have "in_block t r (n * n)" "in_block t u (n * n)" "in_block t f (n * n)"
    using fr assms by (auto intro: frame_in_block)
  then have "res_point r u f n (1.0 / (h * h)) i j t = Some (upd t r (idx n i j) (res_value u f n h i j t))"
    using ij nb by (rule res_point_eq)
  moreover have "frame r n (insert (i, j) (before n i j)) m (upd t r (idx n i j) (res_value u f n h i j t))"
    using fr assms(1) interior_on_grid [OF ij] by (simp add: frame_upd)
  ultimately show "\<exists>t'. res_point r u f n (1.0 / (h * h)) i j t = Some t'
       \<and> frame r n (insert (i, j) (before n i j)) m t'"
    by simp
qed

lemma smoother_call_frame:
  assumes "in_block m u (n * n)" "in_block m f (n * n)" and nb: "n * n < 2 ^ 31"
  shows "\<exists>m'. smoother_call S u f n h m = Some m' \<and> frame u n (interior n) m m'"
  using gauss_seidel_frame [OF assms] gauss_seidel_red_black_frame [OF assms]
  by (cases S) simp_all

lemma smooth_many_frame:
  assumes "in_block m u (n * n)" "in_block m f (n * n)" and nb: "n * n < 2 ^ 31"
  shows "\<exists>m'. smooth_many Ss u f n h m = Some m' \<and> frame u n (interior n) m m'"
  using assms
proof (induction Ss arbitrary: m)
  case Nil
  then show ?case by simp
next
  case (Cons S Ss)
  obtain m1 where m1: "smoother_call S u f n h m = Some m1" "frame u n (interior n) m m1"
    using smoother_call_frame [OF Cons.prems] by blast
  have "in_block m1 u (n * n)" "in_block m1 f (n * n)"
    using m1(2) Cons.prems by (auto intro: frame_in_block)
  then obtain m2 where "smooth_many Ss u f n h m1 = Some m2" "frame u n (interior n) m1 m2"
    using Cons.IH nb by blast
  then show ?case using m1 by (auto intro: frame_trans)
qed

lemma touched_in_block:
  assumes "touched u n (interior n) b k"
  shows "b = fst u \<and> snd u \<le> int k \<and> int k < snd u + n * n"
proof -
  obtain i j where ij: "(i, j) \<in> interior n" "b = fst u" "int k = snd u + idx n i j"
    using assms by (auto simp: touched_def)
  have "on_grid n i j" using interior_on_grid [OF ij(1)] by simp
  then have "0 \<le> idx n i j" "idx n i j < n * n"
    using idx_bounds [of i n j] by (simp_all add: on_grid_def)
  then show ?thesis using ij by simp
qed

lemma frame_outside:
  assumes "frame u n (interior n) m m'"
    and "\<not> (b = fst u \<and> snd u \<le> int k \<and> int k < snd u + n * n)"
  shows "m' b ! k = m b ! k"
  using assms touched_in_block [of u n b k] by (auto simp: frame_def)

lemma frame_entry:
  assumes "frame u n D m m'" "in_block m u (n * n)" "on_grid n a b" "(a, b) \<notin> D" "D \<subseteq> interior n"
  shows "entry m' u n a b = entry m u n a b"
proof -
  have nn: "0 \<le> snd u + idx n a b"
    using valid_on_grid [OF assms(2,3)] by (simp add: valid_def)
  have "\<not> touched u n D (fst u) (nat (snd u + idx n a b))"
  proof
    assume "touched u n D (fst u) (nat (snd u + idx n a b))"
    then obtain i j where ij: "(i, j) \<in> D" "idx n a b = idx n i j"
      using nn by (auto simp: touched_def)
    have "on_grid n i j" using interior_on_grid [of i j n] ij(1) assms(5) by auto
    then have "a = i \<and> b = j"
      using idx_inj [of b n j a i] assms(3) ij(2) by (simp add: on_grid_def)
    then show False using ij(1) assms(4) by simp
  qed
  then show ?thesis using assms(1) by (simp add: frame_def entry_def cell_def)
qed

lemma frame_boundary:
  assumes "frame u n (interior n) m m'" "in_block m u (n * n)" "on_grid n a b"
    "a = 0 \<or> a = n - 1 \<or> b = 0 \<or> b = n - 1"
  shows "entry m' u n a b = entry m u n a b"
  using assms(1,2,3)
proof (rule frame_entry)
  show "(a, b) \<notin> interior n" using assms(4) by (auto simp: interior_def)
qed simp

section \<open>Index overflow\<close>

lemma for_loop_fails:
  assumes "i \<le> k" "k < hi" "\<And>t. body k t = None"
  shows "for_loop i hi body s = None"
  using assms
proof (induction i hi body s rule: for_loop.induct)
  case (1 i hi body s)
  have lt: "i < hi" using "1.prems" by simp
  show ?case
  proof (cases "body i s")
    case None
    then show ?thesis using lt by (subst for_loop.simps) simp
  next
    case (Some t)
    then have "i \<noteq> k" using "1.prems"(3) by auto
    then have "for_loop (i + 1) hi body t = None"
      using "1.prems" by (intro "1.IH" [OF lt Some]) auto
    then show ?thesis using lt Some by (subst for_loop.simps) simp
  qed
qed

lemma sweep_fails:
  assumes "1 \<le> i" "i < hi" "1 \<le> j" "j < hi" "\<And>t. body i j t = None"
  shows "for_loop 1 hi (\<lambda>i. for_loop 1 hi (body i)) m = None"
  using assms(1,2)
proof (rule for_loop_fails)
  fix t show "for_loop 1 hi (body i) t = None"
    using assms(3,4,5) by (rule for_loop_fails)
qed

lemma gs_point_fails:
  assumes "at_index j i n = None \<or> at_index j (i + 1) n = None"
  shows "gs_point u f n h i j t = None"
  using assms
  by (auto simp: gs_point_def c_int_def split: Option.bind_splits if_splits)

lemma res_point_fails:
  assumes "at_index j i n = None \<or> at_index j (i + 1) n = None"
  shows "res_point r u f n hi2 i j t = None"
  using assms
  by (auto simp: res_point_def c_int_def split: Option.bind_splits if_splits)

lemma rb_point_fails:
  assumes "at_index j i n = None \<or> at_index j (i + 1) n = None" "(i + j) mod 2 = c"
  shows "rb_point c u f n h i j t = None"
  using assms gs_point_fails [OF assms(1)]
  by (auto simp: rb_point_def c_int_def split: Option.bind_splits if_splits)

text \<open>
  At \<open>n = 46341\<close> the index \<open>j + (i + 1) * n\<close> of the southern neighbour reaches
  \<open>2\<^sup>3\<^sup>1\<close> at \<open>i = 46339\<close>, \<open>j = 41708\<close>; at \<open>n = 65537\<close> the product \<open>i * n\<close> does
  at \<open>i = 32768\<close>.
\<close>

lemma gauss_seidel_46341: "gauss_seidel u f 46341 h m = None"
proof -
  have "for_loop 1 46340 (\<lambda>i. for_loop 1 46340 (\<lambda>j. gs_point u f 46341 h i j)) m = None"
    by (rule sweep_fails [of 46339 _ 41708], simp_all, rule gs_point_fails)
       (simp add: at_index_def c_int_def)
  then show ?thesis by (simp add: gauss_seidel_def c_int_def)
qed

lemma rb_pass_46341: "rb_pass 0 u f 46341 h m = None" "rb_pass 1 u f 46341 h m = None"
proof -
  have "for_loop 1 46340 (\<lambda>i. for_loop 1 46340 (\<lambda>j. rb_point 0 u f 46341 h i j)) m = None"
    by (rule sweep_fails [of 46339 _ 41709], simp_all, rule rb_point_fails)
       (simp_all add: at_index_def c_int_def)
  then show "rb_pass 0 u f 46341 h m = None" by (simp add: rb_pass_def c_int_def)
  have "for_loop 1 46340 (\<lambda>i. for_loop 1 46340 (\<lambda>j. rb_point 1 u f 46341 h i j)) m = None"
    by (rule sweep_fails [of 46339 _ 41708], simp_all, rule rb_point_fails)
       (simp_all add: at_index_def c_int_def)
  then show "rb_pass 1 u f 46341 h m = None" by (simp add: rb_pass_def c_int_def)
qed

lemma poisson_residual_46341: "poisson_residual r u f 46341 h m = None"
proof -
  have "for_loop 1 46340 (\<lambda>i. for_loop 1 46340 (\<lambda>j. res_point r u f 46341 (1.0 / (h * h)) i j)) m = None"
    by (rule sweep_fails [of 46339 _ 41708], simp_all, rule res_point_fails)
       (simp add: at_index_def c_int_def)
  then show ?thesis by (simp add: poisson_residual_def c_int_def)
qed

lemma smoother_call_46341: "smoother_call S u f 46341 h m = None"
  by (cases S) (simp_all add: gauss_seidel_46341 gauss_seidel_red_black_def rb_pass_46341)

lemma smoother_call_65537: "smoother_call S u f 65537 h m = None"
proof (cases S)
  case GaussSeidel
  have "for_loop 1 65536 (\<lambda>i. for_loop 1 65536 (\<lambda>j. gs_point u f 65537 h i j)) m = None"
    by (rule sweep_fails [of 32768 _ 1], simp_all, rule gs_point_fails)
       (simp add: at_index_def c_int_def)
  then show ?thesis using GaussSeidel by (simp add: gauss_seidel_def c_int_def)
next
  case GaussSeidelRedBlack
  have "for_loop 1 65536 (\<lambda>i. for_loop 1 65536 (\<lambda>j. rb_point 0 u f 65537 h i j)) m = None"
    by (rule sweep_fails [of 32768 _ 2], simp_all, rule rb_point_fails)
       (simp_all add: at_index_def c_int_def)
  then show ?thesis using GaussSeidelRedBlack
    by (simp add: gauss_seidel_red_black_def rb_pass_def c_int_def)
qed

lemma mem46341_blocks:
  "in_block mem46341 (b, 0) (46341 * 46341)" "separate (PU, 0) (PF, 0) (46341 * 46341)"
  by (simp_all add: in_block_def separate_def mem46341_def)

section \<open>Boundary entries are never written (C7)\<close>

text \<open>
  Claim C7, amended. For every \<open>n \<ge> 3\<close> with \<open>n \<cdot> n < 2\<^sup>3\<^sup>1\<close>: any number of
  invocations of \<open>gauss_seidel\<close> and \<open>gauss_seidel_red_black\<close>, in any mix, on fields
  \<open>u\<close> and \<open>f\<close> of \<open>n \<times> n\<close> elements return, leave every entry of \<open>u\<close> with \<open>i\<close>
  or \<open>j\<close> in \<open>{0, n - 1}\<close> as it was, and change no cell outside the block of \<open>u\<close>
  (so \<open>f\<close> is never written); \<open>poisson_residual\<close> returns, leaves every such boundary
  entry of \<open>r\<close> as it was, and changes no cell outside the block of \<open>r\<close> (so neither
  \<open>u\<close> nor \<open>f\<close> is written). From \<open>n = 46341\<close> on the \<open>int\<close> indices of the three
  kernels overflow.
\<close>

theorem boundary_never_written:
  assumes "in_block m u (n * n)" "in_block m f (n * n)" "in_block m r (n * n)"
    and "3 \<le> n" "n * n < 2 ^ 31"
  shows "(\<exists>m'. smooth_many Ss u f n h m = Some m' \<and>
            (\<forall>i j. on_grid n i j \<and> (i = 0 \<or> i = n - 1 \<or> j = 0 \<or> j = n - 1)
                   \<longrightarrow> entry m' u n i j = entry m u n i j) \<and>
            (\<forall>b k. \<not> (b = fst u \<and> snd u \<le> int k \<and> int k < snd u + n * n) \<longrightarrow> m' b ! k = m b ! k))
       \<and> (\<exists>m'. poisson_residual r u f n h m = Some m' \<and>
            (\<forall>i j. on_grid n i j \<and> (i = 0 \<or> i = n - 1 \<or> j = 0 \<or> j = n - 1)
                   \<longrightarrow> entry m' r n i j = entry m r n i j) \<and>
            (\<forall>b k. \<not> (b = fst r \<and> snd r \<le> int k \<and> int k < snd r + n * n) \<longrightarrow> m' b ! k = m b ! k))"
proof (rule conjI)
  obtain m' where m': "smooth_many Ss u f n h m = Some m'" "frame u n (interior n) m m'"
    using smooth_many_frame [OF assms(1,2,5)] by blast
  show "\<exists>m'. smooth_many Ss u f n h m = Some m' \<and>
            (\<forall>i j. on_grid n i j \<and> (i = 0 \<or> i = n - 1 \<or> j = 0 \<or> j = n - 1)
                   \<longrightarrow> entry m' u n i j = entry m u n i j) \<and>
            (\<forall>b k. \<not> (b = fst u \<and> snd u \<le> int k \<and> int k < snd u + n * n) \<longrightarrow> m' b ! k = m b ! k)"
    using m' frame_boundary [OF m'(2) assms(1)] frame_outside [OF m'(2)] by blast
next
  obtain m' where m': "poisson_residual r u f n h m = Some m'" "frame r n (interior n) m m'"
    using poisson_residual_frame [OF assms(3,1,2,5)] by blast
  show "\<exists>m'. poisson_residual r u f n h m = Some m' \<and>
            (\<forall>i j. on_grid n i j \<and> (i = 0 \<or> i = n - 1 \<or> j = 0 \<or> j = n - 1)
                   \<longrightarrow> entry m' r n i j = entry m r n i j) \<and>
            (\<forall>b k. \<not> (b = fst r \<and> snd r \<le> int k \<and> int k < snd r + n * n) \<longrightarrow> m' b ! k = m b ! k)"
    using m' frame_boundary [OF m'(2) assms(3)] frame_outside [OF m'(2)] by blast
qed

theorem boundary_never_written_witness:
  "in_block mem3 (PU, 0) (3 * 3) \<and> in_block mem3 (PF, 0) (3 * 3) \<and> in_block mem3 (PR, 0) (3 * 3) \<and>
   (3::int) \<le> 3 \<and> (3::int) * 3 < 2 ^ 31 \<and>
   (\<exists>m'. smooth_many [GaussSeidel, GaussSeidelRedBlack] (PU, 0) (PF, 0) 3 1 mem3 = Some m' \<and>
      entry m' (PU, 0) 3 0 2 = 3 \<and> entry m' (PU, 0) 3 1 0 = 4 \<and> m' PF ! 4 = 1) \<and>
   (\<exists>m'. poisson_residual (PR, 0) (PU, 0) (PF, 0) 3 1 mem3 = Some m' \<and>
      entry m' (PR, 0) 3 2 1 = 5 \<and> m' PU ! 4 = 5)"
proof -
  have a: "in_block mem3 (PU, 0) (3 * 3)" and b: "in_block mem3 (PF, 0) (3 * 3)"
    and c: "in_block mem3 (PR, 0) (3 * 3)"
    by (simp_all add: in_block_def mem3_def)
  have d: "(3::int) \<le> 3" "(3::int) * 3 < 2 ^ 31" by simp_all
  note t = boundary_never_written [OF a b c d, of "[GaussSeidel, GaussSeidelRedBlack]" 1]
  from t [THEN conjunct1] obtain m1 where m1: "smooth_many [GaussSeidel, GaussSeidelRedBlack] (PU, 0) (PF, 0) 3 1 mem3 = Some m1"
    "\<forall>i j. on_grid 3 i j \<and> (i = 0 \<or> i = 3 - 1 \<or> j = 0 \<or> j = 3 - 1)
        \<longrightarrow> entry m1 (PU, 0) 3 i j = entry mem3 (PU, 0) 3 i j"
    "\<forall>b k. \<not> (b = fst (PU, 0::int) \<and> snd (PU, 0::int) \<le> int k \<and> int k < snd (PU, 0::int) + 3 * 3) \<longrightarrow> m1 b ! k = mem3 b ! k"
    by (elim exE conjE) (rule that)
  from t [THEN conjunct2] obtain m2 where m2: "poisson_residual (PR, 0) (PU, 0) (PF, 0) 3 1 mem3 = Some m2"
    "\<forall>i j. on_grid 3 i j \<and> (i = 0 \<or> i = 3 - 1 \<or> j = 0 \<or> j = 3 - 1)
        \<longrightarrow> entry m2 (PR, 0) 3 i j = entry mem3 (PR, 0) 3 i j"
    "\<forall>b k. \<not> (b = fst (PR, 0::int) \<and> snd (PR, 0::int) \<le> int k \<and> int k < snd (PR, 0::int) + 3 * 3) \<longrightarrow> m2 b ! k = mem3 b ! k"
    by (elim exE conjE) (rule that)
  have "entry m1 (PU, 0) 3 0 2 = entry mem3 (PU, 0) 3 0 2"
       "entry m1 (PU, 0) 3 1 0 = entry mem3 (PU, 0) 3 1 0"
    using m1(2) by (simp_all add: on_grid_def)
  moreover have "m1 PF ! 4 = mem3 PF ! 4" using m1(3) by simp
  moreover have "entry m2 (PR, 0) 3 2 1 = entry mem3 (PR, 0) 3 2 1"
    using m2(2) by (simp add: on_grid_def)
  moreover have "m2 PU ! 4 = mem3 PU ! 4" using m2(3) by simp
  ultimately show ?thesis
    using a b c m1(1) m2(1) by (simp add: entry_def cell_def idx_def mem3_def)
qed

theorem boundary_claim_overflow:
  "(3 :: int) \<le> 46341 \<and> (2 :: int) ^ 31 \<le> 46341 * 46341 \<and>
   in_block mem46341 (PU, 0) (46341 * 46341) \<and> in_block mem46341 (PF, 0) (46341 * 46341) \<and>
   in_block mem46341 (PR, 0) (46341 * 46341) \<and>
   smooth_many [GaussSeidel] (PU, 0) (PF, 0) 46341 1 mem46341 = None \<and>
   smooth_many [GaussSeidelRedBlack] (PU, 0) (PF, 0) 46341 1 mem46341 = None \<and>
   poisson_residual (PR, 0) (PU, 0) (PF, 0) 46341 1 mem46341 = None"
  using mem46341_blocks(1) [of PU] mem46341_blocks(1) [of PF] mem46341_blocks(1) [of PR]
  by (simp add: gauss_seidel_46341 gauss_seidel_red_black_def rb_pass_46341
        poisson_residual_46341)

section \<open>One Gauss-Seidel sweep (C6)\<close>

lemma frame_separate_entry:
  assumes "frame u n D m t" "D \<subseteq> interior n" "separate u f (n * n)"
    "in_block m f (n * n)" "on_grid n a b"
  shows "entry t f n a b = entry m f n a b"
proof -
  have v: "0 \<le> snd f + idx n a b" "0 \<le> idx n a b" "idx n a b < n * n"
    using valid_on_grid [OF assms(4,5)] idx_bounds [of a n b] assms(5)
    by (simp_all add: valid_def on_grid_def)
  have "\<not> touched u n D (fst f) (nat (snd f + idx n a b))"
  proof
    assume "touched u n D (fst f) (nat (snd f + idx n a b))"
    then have "touched u n (interior n) (fst f) (nat (snd f + idx n a b))"
      using assms(2) by (rule touched_mono [rotated])
    from touched_in_block [OF this] show False
      using v assms(3) by (auto simp: separate_def)
  qed
  then show ?thesis using assms(1) by (simp add: frame_def entry_def cell_def)
qed

lemma before_interior: "before n i j \<subseteq> interior n"
  by (auto simp: before_def)

lemma gauss_seidel_equations:
  assumes bu: "in_block m u (n * n)" and bf: "in_block m f (n * n)" and sep: "separate u f (n * n)"
    and nb: "n * n < 2 ^ 31"
  shows "\<exists>m'. gauss_seidel u f n h m = Some m' \<and> frame u n (interior n) m m' \<and>
           (\<forall>(i, j) \<in> interior n.
              entry m' u n i j =
                - 0.25 * (h * h * entry m f n i j - entry m u n i (j + 1) - entry m' u n i (j - 1)
                          - entry m u n (i + 1) j - entry m' u n (i - 1) j))"
  unfolding gauss_seidel_loops [OF nb]
proof (rule sweep_rule [where Q = "\<lambda>D t. frame u n D m t \<and>
           (\<forall>(i, j) \<in> D.
              entry t u n i j =
                - 0.25 * (h * h * entry m f n i j - entry m u n i (j + 1) - entry t u n i (j - 1)
                          - entry m u n (i + 1) j - entry t u n (i - 1) j))"])
  show "frame u n {} m m \<and> (\<forall>(i, j) \<in> {}. entry m u n i j =
                - 0.25 * (h * h * entry m f n i j - entry m u n i (j + 1) - entry m u n i (j - 1)
                          - entry m u n (i + 1) j - entry m u n (i - 1) j))"
    by simp
next
  fix i j t
  assume ij: "(i, j) \<in> interior n"
    and Q: "frame u n (before n i j) m t \<and>
           (\<forall>(i, j) \<in> before n i j.
              entry t u n i j =
                - 0.25 * (h * h * entry m f n i j - entry m u n i (j + 1) - entry t u n i (j - 1)
                          - entry m u n (i + 1) j - entry t u n (i - 1) j))"
  let ?D = "before n i j"
  define x where "x = gs_value u f n h i j t"
  define t' where "t' = upd t u (idx n i j) x"
  from Q have fr: "frame u n ?D m t" by simp
  note g = interior_on_grid [OF ij]
  have tu: "in_block t u (n * n)" and tf: "in_block t f (n * n)"
    using fr bu bf by (auto intro: frame_in_block)
  have step: "gs_point u f n h i j t = Some t'"
    unfolding t'_def x_def using tu tf ij nb by (rule gs_point_eq)
  have fr': "frame u n (insert (i, j) ?D) m t'"
    unfolding t'_def using fr bu g by (simp add: frame_upd)
  have ent: "entry t' u n a b = (if a = i \<and> b = j then x else entry t u n a b)"
    if "on_grid n a b" for a b
    unfolding t'_def using tu g that by (simp add: entry_upd)
  have ff: "entry t f n i j = entry m f n i j"
    using fr before_interior sep bf g by (simp add: frame_separate_entry)
  have east: "entry t u n i (j + 1) = entry m u n i (j + 1)"
    using fr bu g by (intro frame_entry [OF _ _ _ _ before_interior]) (auto simp: before_def)
  have south: "entry t u n (i + 1) j = entry m u n (i + 1) j"
    using fr bu g by (intro frame_entry [OF _ _ _ _ before_interior]) (auto simp: before_def)
  have new: "entry t' u n i j =
                - 0.25 * (h * h * entry m f n i j - entry m u n i (j + 1) - entry t' u n i (j - 1)
                          - entry m u n (i + 1) j - entry t' u n (i - 1) j)"
    using g by (simp add: ent x_def gs_value_def ff east south)
  have old: "entry t' u n a b =
                - 0.25 * (h * h * entry m f n a b - entry m u n a (b + 1) - entry t' u n a (b - 1)
                          - entry m u n (a + 1) b - entry t' u n (a - 1) b)"
    if ab: "(a, b) \<in> ?D" for a b
  proof -
    have ab': "(a, b) \<in> interior n" using ab by (simp add: before_def)
    note ga = interior_on_grid [OF ab']
    have "entry t' u n a b = entry t u n a b" "entry t' u n a (b - 1) = entry t u n a (b - 1)"
         "entry t' u n (a - 1) b = entry t u n (a - 1) b"
      using ga ab by (auto simp: ent before_def)
    then show ?thesis using Q ab by auto
  qed
  show "\<exists>t'. gs_point u f n h i j t = Some t' \<and>
          (frame u n (insert (i, j) ?D) m t' \<and>
           (\<forall>(i, j) \<in> insert (i, j) ?D.
              entry t' u n i j =
                - 0.25 * (h * h * entry m f n i j - entry m u n i (j + 1) - entry t' u n i (j - 1)
                          - entry m u n (i + 1) j - entry t' u n (i - 1) j)))"
    using step fr' new old by auto
qed

text \<open>
  Claim C6, amended. For \<open>n \<cdot> n < 2\<^sup>3\<^sup>1\<close>, one call \<open>gauss_seidel(u, f, n, h)\<close> on
  separate fields of \<open>n \<times> n\<close> elements returns, and its result is that of one in-place
  row-major sweep: at every interior point \<open>1 \<le> i, j \<le> n - 2\<close> the new value is
  \<open>- 0.25 \<cdot> (h\<^sup>2 \<cdot> f[i,j] - u[i,j+1] - u'[i,j-1] - u[i+1,j] - u'[i-1,j])\<close>, with the new
  values \<open>u'\<close> at \<open>(i, j - 1)\<close> and \<open>(i - 1, j)\<close> and the old values \<open>u\<close> at
  \<open>(i, j + 1)\<close> and \<open>(i + 1, j)\<close>; boundary entries keep their values (so there
  \<open>u' = u\<close>), and nothing outside the block of \<open>u\<close> changes. These equations
  determine \<open>u'\<close>, point after point in row-major order. At \<open>n = 46341\<close> the \<open>int\<close>
  index \<open>j + (i + 1) * n\<close> overflows.
\<close>

theorem gauss_seidel_one_sweep:
  assumes "in_block m u (n * n)" "in_block m f (n * n)" "separate u f (n * n)"
    and "n * n < 2 ^ 31"
  shows "\<exists>m'. gauss_seidel u f n h m = Some m' \<and>
           (\<forall>i j. 1 \<le> i \<and> i \<le> n - 2 \<and> 1 \<le> j \<and> j \<le> n - 2 \<longrightarrow>
              entry m' u n i j =
                - 0.25 * (h\<^sup>2 * entry m f n i j - entry m u n i (j + 1) - entry m' u n i (j - 1)
                          - entry m u n (i + 1) j - entry m' u n (i - 1) j)) \<and>
           (\<forall>i j. on_grid n i j \<and> (i = 0 \<or> i = n - 1 \<or> j = 0 \<or> j = n - 1)
                   \<longrightarrow> entry m' u n i j = entry m u n i j) \<and>
           (\<forall>b k. \<not> (b = fst u \<and> snd u \<le> int k \<and> int k < snd u + n * n) \<longrightarrow> m' b ! k = m b ! k) \<and>
           (\<forall>b. length (m' b) = length (m b))"
proof -
  obtain m' where m': "gauss_seidel u f n h m = Some m'" "frame u n (interior n) m m'"
    "\<forall>(i, j) \<in> interior n.
              entry m' u n i j =
                - 0.25 * (h * h * entry m f n i j - entry m u n i (j + 1) - entry m' u n i (j - 1)
                          - entry m u n (i + 1) j - entry m' u n (i - 1) j)"
    using gauss_seidel_equations [OF assms] by blast
  have "\<forall>i j. 1 \<le> i \<and> i \<le> n - 2 \<and> 1 \<le> j \<and> j \<le> n - 2 \<longrightarrow>
              entry m' u n i j =
                - 0.25 * (h\<^sup>2 * entry m f n i j - entry m u n i (j + 1) - entry m' u n i (j - 1)
                          - entry m u n (i + 1) j - entry m' u n (i - 1) j)"
    using m'(3) by (auto simp: interior_def power2_eq_square)
  moreover have "\<forall>b. length (m' b) = length (m b)"
    using m'(2) by (simp add: frame_def same_shape_def)
  ultimately show ?thesis
    using m'(1) frame_boundary [OF m'(2) assms(1)] frame_outside [OF m'(2)] by blast
qed

theorem gauss_seidel_one_sweep_witness:
  "in_block mem4 (PU, 0) (4 * 4) \<and> in_block mem4 (PF, 0) (4 * 4) \<and> separate (PU, 0) (PF, 0) (4 * 4) \<and>
   (4::int) * 4 < 2 ^ 31 \<and>
   (\<exists>m'. gauss_seidel (PU, 0) (PF, 0) 4 1 mem4 = Some m' \<and>
      entry m' (PU, 0) 4 1 1 = 23 / 4 \<and> entry m' (PU, 0) 4 1 2 = 107 / 16)"
proof -
  have a: "in_block mem4 (PU, 0) (4 * 4)" and b: "in_block mem4 (PF, 0) (4 * 4)"
    and c: "separate (PU, 0) (PF, 0) (4 * 4)" and d: "(4::int) * 4 < 2 ^ 31"
    by (simp_all add: in_block_def separate_def mem4_def)
  from gauss_seidel_one_sweep [OF a b c d, of 1]
  obtain m' where m': "gauss_seidel (PU, 0) (PF, 0) 4 1 mem4 = Some m'"
    "\<forall>i j. 1 \<le> i \<and> i \<le> 4 - 2 \<and> 1 \<le> j \<and> j \<le> 4 - 2 \<longrightarrow>
              entry m' (PU, 0) 4 i j =
                - 0.25 * (1\<^sup>2 * entry mem4 (PF, 0) 4 i j - entry mem4 (PU, 0) 4 i (j + 1)
                          - entry m' (PU, 0) 4 i (j - 1)
                          - entry mem4 (PU, 0) 4 (i + 1) j - entry m' (PU, 0) 4 (i - 1) j)"
    "\<forall>i j. on_grid 4 i j \<and> (i = 0 \<or> i = 4 - 1 \<or> j = 0 \<or> j = 4 - 1)
                   \<longrightarrow> entry m' (PU, 0) 4 i j = entry mem4 (PU, 0) 4 i j"
    by (elim exE conjE) (rule that)
  have bd: "entry m' (PU, 0) 4 1 0 = 5" "entry m' (PU, 0) 4 0 1 = 2" "entry m' (PU, 0) 4 0 2 = 3"
    using m'(3) [rule_format, of 1 0] m'(3) [rule_format, of 0 1] m'(3) [rule_format, of 0 2]
    by (simp_all add: on_grid_def entry_def cell_def idx_def mem4_def)
  have e11: "entry m' (PU, 0) 4 1 1 = 23 / 4"
    using m'(2) [rule_format, of 1 1] bd by (simp add: entry_def cell_def idx_def mem4_def)
  have "entry mem4 (PF, 0) 4 1 2 = 1" "entry mem4 (PU, 0) 4 1 3 = 8" "entry mem4 (PU, 0) 4 2 2 = 11"
    by (simp_all add: entry_def cell_def idx_def mem4_def)
  then have "entry m' (PU, 0) 4 1 2 = - 0.25 * (1 - 8 - 23 / 4 - 11 - 3)"
    using m'(2) [rule_format, of 1 2] bd e11 by simp
  then have e12: "entry m' (PU, 0) 4 1 2 = 107 / 16"
    by simp
  show ?thesis using a b c m'(1) e11 e12 by simp
qed

theorem gauss_seidel_index_overflow:
  "(2 :: int) ^ 31 \<le> 46341 * 46341 \<and>
   in_block mem46341 (PU, 0) (46341 * 46341) \<and> in_block mem46341 (PF, 0) (46341 * 46341) \<and>
   separate (PU, 0) (PF, 0) (46341 * 46341) \<and>
   at_index 41708 (46339 + 1) 46341 = None \<and>
   gauss_seidel (PU, 0) (PF, 0) 46341 1 mem46341 = None"
  using mem46341_blocks(1) [of PU] mem46341_blocks(1) [of PF] mem46341_blocks(2)
  by (simp add: gauss_seidel_46341 at_index_def c_int_def)

section \<open>The red-black passes (C5)\<close>

lemma colour_points_interior: "colour_points c n \<subseteq> interior n"
  by (auto simp: colour_points_def)

lemma visit_rule_gen:
  assumes "distinct ps" "Q D m" "D \<inter> set ps = {}" "D \<union> set ps \<subseteq> S"
    and step: "\<And>i j D t. (i, j) \<in> S \<Longrightarrow> D \<subseteq> S \<Longrightarrow> (i, j) \<notin> D \<Longrightarrow> Q D t
                 \<Longrightarrow> \<exists>t'. body i j t = Some t' \<and> Q (insert (i, j) D) t'"
  shows "\<exists>m'. visit body ps m = Some m' \<and> Q (D \<union> set ps) m'"
  using assms(1-4)
proof (induction ps arbitrary: D m)
  case Nil
  then show ?case by simp
next
  case (Cons p ps)
  obtain i j where p: "p = (i, j)" by (cases p)
  have "\<exists>t'. body i j m = Some t' \<and> Q (insert (i, j) D) t'"
    using Cons.prems p by (intro step) auto
  then obtain t' where t': "body i j m = Some t'" "Q (insert (i, j) D) t'" by blast
  have "\<exists>m'. visit body ps t' = Some m' \<and> Q (insert (i, j) D \<union> set ps) m'"
    using Cons.prems p t'(2) by (intro Cons.IH) auto
  then show ?case using t'(1) p by simp
qed

lemma visit_rule:
  assumes "distinct ps" "Q {} m"
    and "\<And>i j D t. (i, j) \<in> set ps \<Longrightarrow> D \<subseteq> set ps \<Longrightarrow> (i, j) \<notin> D \<Longrightarrow> Q D t
                 \<Longrightarrow> \<exists>t'. body i j t = Some t' \<and> Q (insert (i, j) D) t'"
  shows "\<exists>m'. visit body ps m = Some m' \<and> Q (set ps) m'"
  using visit_rule_gen [of ps Q "{}" m "set ps" body] assms by simp

lemma pass_inv_start: "pass_inv c u f n h m {} m"
  by (simp add: pass_inv_def)

lemma pass_inv_skip:
  "(i, j) \<notin> colour_points c n \<Longrightarrow> pass_inv c u f n h m D t \<Longrightarrow> pass_inv c u f n h m (insert (i, j) D) t"
  by (simp add: pass_inv_def)

lemma pass_inv_update:
  assumes bu: "in_block m u (n * n)" and bf: "in_block m f (n * n)" and sep: "separate u f (n * n)"
    and small: "n * n < 2 ^ 31"
    and ij: "(i, j) \<in> colour_points c n" and inv: "pass_inv c u f n h m D t"
  shows "\<exists>t'. gs_point u f n h i j t = Some t' \<and> pass_inv c u f n h m (insert (i, j) D) t'"
proof -
  let ?C = "colour_points c n"
  define x where "x = gs_value u f n h i j t"
  define t' where "t' = upd t u (idx n i j) x"
  have iji: "(i, j) \<in> interior n" and col: "(i + j) mod 2 = c"
    using ij by (auto simp: colour_points_def)
  note g = interior_on_grid [OF iji]
  have sub: "D \<inter> ?C \<subseteq> interior n" using colour_points_interior by auto
  from inv have fr: "frame u n (D \<inter> ?C) m t" by (simp add: pass_inv_def)
  have tu: "in_block t u (n * n)" and tf: "in_block t f (n * n)"
    using fr bu bf by (auto intro: frame_in_block)
  have step: "gs_point u f n h i j t = Some t'"
    unfolding t'_def x_def using tu tf iji small by (rule gs_point_eq)
  have fr': "frame u n (insert (i, j) D \<inter> ?C) m t'"
  proof -
    have "frame u n (insert (i, j) (D \<inter> ?C)) m t'"
      unfolding t'_def using fr bu g by (simp add: frame_upd)
    moreover have "insert (i, j) D \<inter> ?C = insert (i, j) (D \<inter> ?C)" using ij by auto
    ultimately show ?thesis by simp
  qed
  have ent: "entry t' u n a b = (if a = i \<and> b = j then x else entry t u n a b)"
    if "on_grid n a b" for a b
    unfolding t'_def using tu g that by (simp add: entry_upd)
  have ff: "entry t f n i j = entry m f n i j"
    using fr sub sep bf g by (simp add: frame_separate_entry)
  have nb: "entry t u n a b = entry m u n a b"
    if "on_grid n a b" "(a + b) mod 2 \<noteq> c" for a b
    using fr bu that(1) by (rule frame_entry) (use that(2) sub in \<open>auto simp: colour_points_def\<close>)
  have par: "(i + (j + 1)) mod 2 \<noteq> c" "(i + (j - 1)) mod 2 \<noteq> c"
            "(i + 1 + j) mod 2 \<noteq> c" "(i - 1 + j) mod 2 \<noteq> c"
    using col by presburger+
  have "x = gs_value u f n h i j m"
    unfolding x_def gs_value_def using g par by (simp add: ff nb)
  then have xi: "entry t' u n i j = gs_value u f n h i j m"
    using g by (simp add: ent)
  have "entry t' u n a b = gs_value u f n h a b m" if ab: "(a, b) \<in> insert (i, j) D \<inter> ?C" for a b
  proof (cases "a = i \<and> b = j")
    case True
    then show ?thesis using xi by simp
  next
    case False
    then have abD: "(a, b) \<in> D \<inter> ?C" using ab by auto
    then have "on_grid n a b" using interior_on_grid [of a b n] sub by auto
    then have "entry t' u n a b = entry t u n a b" using False by (auto simp: ent)
    then show ?thesis using inv abD by (auto simp: pass_inv_def)
  qed
  then have "\<forall>(a, b) \<in> insert (i, j) D \<inter> ?C. entry t' u n a b = gs_value u f n h a b m"
    by blast
  then show ?thesis using step fr' by (simp add: pass_inv_def)
qed

lemma pass_inv_simultaneous:
  assumes bu: "in_block m u (n * n)" and inv: "pass_inv c u f n h m D m'"
    and D: "colour_points c n \<subseteq> D"
  shows "m' = simultaneous_pass c u f n h m"
proof
  fix b
  let ?C = "colour_points c n"
  have DC: "D \<inter> ?C = ?C" using D by auto
  have fr: "frame u n ?C m m'" and val: "\<forall>(a, b) \<in> ?C. entry m' u n a b = gs_value u f n h a b m"
    using inv by (simp_all add: pass_inv_def DC)
  have len: "length (m' b) = length (m b)" for b
    using fr by (simp add: frame_def same_shape_def)
  show "m' b = simultaneous_pass c u f n h m b"
  proof (cases "b = fst u")
    case False
    have "m' b ! k = m b ! k" for k
      using fr False by (simp add: frame_def touched_def split_beta)
    then have "m' b = m b" using len by (intro nth_equalityI) auto
    then show ?thesis using False by (simp add: simultaneous_pass_def)
  next
    case True
    define g where "g = (\<lambda>k. let a = int k - snd u; i = a div n; j = a mod n
                  in if 0 \<le> a \<and> (i, j) \<in> ?C
                     then gs_value u f n h i j m else m (fst u) ! k)"
    have "m' (fst u) ! k = g k"
      if k: "k < length (m (fst u))" for k
    proof (cases "0 \<le> int k - snd u \<and> ((int k - snd u) div n, (int k - snd u) mod n) \<in> ?C")
      case True
      define a where "a = int k - snd u"
      have C: "(a div n, a mod n) \<in> ?C" and a0: "0 \<le> a" using True by (simp_all add: a_def)
      have "idx n (a div n) (a mod n) = a" by (simp add: idx_def)
      then have "entry m' u n (a div n) (a mod n) = m' (fst u) ! k"
        by (simp add: entry_def cell_def a_def)
      then show ?thesis using val C a0 by (auto simp: a_def Let_def g_def)
    next
      case False
      have "\<not> touched u n ?C (fst u) k"
      proof
        assume "touched u n ?C (fst u) k"
        then obtain i j where ij: "(i, j) \<in> ?C" "int k = snd u + idx n i j"
          by (auto simp: touched_def)
        have og: "on_grid n i j" using interior_on_grid [of i j n] ij(1) colour_points_interior by auto
        then have "0 \<le> idx n i j" using idx_bounds [of i n j] by (simp add: on_grid_def)
        moreover have "idx n i j div n = i" "idx n i j mod n = j"
          using og by (simp_all add: idx_def on_grid_def)
        ultimately show False using False ij by simp
      qed
      then have "m' (fst u) ! k = m (fst u) ! k" using fr by (simp add: frame_def)
      then show ?thesis using False by (auto simp: Let_def g_def)
    qed
    then have "m' (fst u) = map g [0..<length (m (fst u))]"
      using len by (intro nth_equalityI) auto
    then show ?thesis using True by (simp add: simultaneous_pass_def g_def)
  qed
qed

lemma rb_pass_inv:
  assumes bu: "in_block m u (n * n)" and bf: "in_block m f (n * n)" and sep: "separate u f (n * n)"
    and small: "n * n < 2 ^ 31"
  shows "\<exists>m'. rb_pass c u f n h m = Some m' \<and> pass_inv c u f n h m (interior n) m'"
  unfolding rb_pass_loops [OF small]
proof (rule sweep_rule [where Q = "pass_inv c u f n h m"])
  show "pass_inv c u f n h m {} m" by (rule pass_inv_start)
next
  fix i j t
  assume ij: "(i, j) \<in> interior n" and inv: "pass_inv c u f n h m (before n i j) t"
  show "\<exists>t'. rb_point c u f n h i j t = Some t' \<and>
            pass_inv c u f n h m (insert (i, j) (before n i j)) t'"
    unfolding rb_point_eq [OF ij small]
  proof (cases "(i + j) mod 2 = c")
    case True
    then have "(i, j) \<in> colour_points c n" using ij by (simp add: colour_points_def)
    then show "\<exists>t'. (if (i + j) mod 2 = c then gs_point u f n h i j t else Some t) = Some t' \<and>
            pass_inv c u f n h m (insert (i, j) (before n i j)) t'"
      using pass_inv_update [OF bu bf sep small _ inv] True by simp
  next
    case False
    then have "(i, j) \<notin> colour_points c n" by (simp add: colour_points_def)
    then show "\<exists>t'. (if (i + j) mod 2 = c then gs_point u f n h i j t else Some t) = Some t' \<and>
            pass_inv c u f n h m (insert (i, j) (before n i j)) t'"
      using pass_inv_skip [OF _ inv] False by simp
  qed
qed

lemma rb_pass_simultaneous:
  assumes bu: "in_block m u (n * n)" and bf: "in_block m f (n * n)" and sep: "separate u f (n * n)"
    and small: "n * n < 2 ^ 31"
  shows "rb_pass c u f n h m = Some (simultaneous_pass c u f n h m)"
proof -
  obtain m' where m': "rb_pass c u f n h m = Some m'" "pass_inv c u f n h m (interior n) m'"
    using rb_pass_inv [OF assms] by blast
  show ?thesis
    using m'(1) pass_inv_simultaneous [OF bu m'(2) colour_points_interior] by simp
qed

lemma visit_simultaneous:
  assumes bu: "in_block m u (n * n)" and bf: "in_block m f (n * n)" and sep: "separate u f (n * n)"
    and small: "n * n < 2 ^ 31"
    and ps: "distinct ps" "set ps = colour_points c n"
  shows "visit (gs_point u f n h) ps m = Some (simultaneous_pass c u f n h m)"
proof -
  have "\<exists>m'. visit (gs_point u f n h) ps m = Some m' \<and> pass_inv c u f n h m (set ps) m'"
    using ps(1) pass_inv_start
  proof (rule visit_rule)
    fix i j D t
    assume "(i, j) \<in> set ps" and inv: "pass_inv c u f n h m D t"
    then have "(i, j) \<in> colour_points c n" using ps(2) by simp
    then show "\<exists>t'. gs_point u f n h i j t = Some t' \<and> pass_inv c u f n h m (insert (i, j) D) t'"
      using inv by (rule pass_inv_update [OF bu bf sep small])
  qed
  then obtain m' where m': "visit (gs_point u f n h) ps m = Some m'" "pass_inv c u f n h m (set ps) m'"
    by blast
  have "colour_points c n \<subseteq> set ps" using ps(2) by simp
  then show ?thesis
    using m'(1) pass_inv_simultaneous [OF bu m'(2)] by simp
qed

lemma simultaneous_pass_shape: "same_shape m (simultaneous_pass c u f n h m)"
  by (simp add: same_shape_def simultaneous_pass_def)

lemma gauss_seidel_red_black_simultaneous:
  assumes bu: "in_block m u (n * n)" and bf: "in_block m f (n * n)" and sep: "separate u f (n * n)"
    and small: "n * n < 2 ^ 31"
  shows "gauss_seidel_red_black u f n h m
           = Some (simultaneous_pass 1 u f n h (simultaneous_pass 0 u f n h m))"
proof -
  let ?m1 = "simultaneous_pass 0 u f n h m"
  have 1: "rb_pass 0 u f n h m = Some ?m1" using assms by (rule rb_pass_simultaneous)
  have "in_block ?m1 u (n * n)" "in_block ?m1 f (n * n)"
    using bu bf simultaneous_pass_shape [of m 0 u f n h] by (simp_all add: in_block_def same_shape_def)
  then have "rb_pass 1 u f n h ?m1 = Some (simultaneous_pass 1 u f n h ?m1)"
    using sep small by (rule rb_pass_simultaneous)
  then show ?thesis using 1 by (simp add: gauss_seidel_red_black_def)
qed

lemma gs_value_reads_other_colour:
  assumes "entry m2 f n i j = entry m f n i j"
    and "\<forall>a b. (a + b) mod 2 \<noteq> (i + j) mod 2 \<longrightarrow> entry m2 u n a b = entry m u n a b"
  shows "gs_value u f n h i j m2 = gs_value u f n h i j m"
proof -
  have "(i + (j + 1)) mod 2 \<noteq> (i + j) mod 2" "(i + (j - 1)) mod 2 \<noteq> (i + j) mod 2"
       "(i + 1 + j) mod 2 \<noteq> (i + j) mod 2" "(i - 1 + j) mod 2 \<noteq> (i + j) mod 2"
    by presburger+
  then show ?thesis using assms by (simp add: gs_value_def)
qed

text \<open>
  Claim C5, amended. On separate fields of \<open>n \<times> n\<close> elements with
  \<open>n \<cdot> n < 2\<^sup>3\<^sup>1\<close>, each of the two loop nests of \<open>gauss_seidel_red_black\<close> computes
  what the simultaneous update of all points of its colour from the state at the start of
  the pass computes, the second pass starting from the result of the first; the same
  result comes out when the points of the colour are visited in any other order; and the
  value assigned at a point does not depend on the entries of \<open>u\<close> at points of its own
  colour. At \<open>n = 46341\<close> the \<open>int\<close> index \<open>j + (i + 1) * n\<close> overflows in both
  passes.
\<close>

theorem red_black_pass_simultaneous:
  assumes "in_block m u (n * n)" "in_block m f (n * n)" "separate u f (n * n)"
    and "n * n < 2 ^ 31"
  shows "rb_pass 0 u f n h m = Some (simultaneous_pass 0 u f n h m) \<and>
         rb_pass 1 u f n h m = Some (simultaneous_pass 1 u f n h m) \<and>
         gauss_seidel_red_black u f n h m
           = Some (simultaneous_pass 1 u f n h (simultaneous_pass 0 u f n h m)) \<and>
         (\<forall>c ps. distinct ps \<and> set ps = colour_points c n
            \<longrightarrow> visit (gs_point u f n h) ps m = Some (simultaneous_pass c u f n h m)) \<and>
         (\<forall>i j m2. entry m2 f n i j = entry m f n i j \<and>
              (\<forall>a b. (a + b) mod 2 \<noteq> (i + j) mod 2 \<longrightarrow> entry m2 u n a b = entry m u n a b)
            \<longrightarrow> gs_value u f n h i j m2 = gs_value u f n h i j m)"
  using rb_pass_simultaneous [OF assms] gauss_seidel_red_black_simultaneous [OF assms]
    visit_simultaneous [OF assms] gs_value_reads_other_colour [of _ f n _ _ m u h]
  by blast

theorem red_black_pass_simultaneous_witness:
  "in_block mem4 (PU, 0) (4 * 4) \<and> in_block mem4 (PF, 0) (4 * 4) \<and> separate (PU, 0) (PF, 0) (4 * 4) \<and>
   (4::int) * 4 < 2 ^ 31 \<and>
   distinct [(2, 2), (1, 1 :: int)] \<and> set [(2, 2), (1, 1)] = colour_points 0 4 \<and>
   gauss_seidel_red_black (PU, 0) (PF, 0) 4 1 mem4
     = Some (simultaneous_pass 1 (PU, 0) (PF, 0) 4 1 (simultaneous_pass 0 (PU, 0) (PF, 0) 4 1 mem4)) \<and>
   visit (gs_point (PU, 0) (PF, 0) 4 1) [(2, 2), (1, 1)] mem4
     = Some (simultaneous_pass 0 (PU, 0) (PF, 0) 4 1 mem4)"
proof -
  have a: "in_block mem4 (PU, 0) (4 * 4)" and b: "in_block mem4 (PF, 0) (4 * 4)"
    and c: "separate (PU, 0) (PF, 0) (4 * 4)"
    by (simp_all add: in_block_def separate_def mem4_def)
  have d: "distinct [(2, 2), (1, 1 :: int)]" by simp
  have "(i, j) \<in> colour_points 0 4 \<longleftrightarrow> (i, j) \<in> {(2, 2), (1, 1)}" for i j
    unfolding colour_points_def interior_def by (simp, presburger)
  then have e: "set [(2, 2), (1, 1)] = colour_points 0 4" by auto
  have s: "(4::int) * 4 < 2 ^ 31" by simp
  note t = red_black_pass_simultaneous [OF a b c s, of 1]
  from t have "visit (gs_point (PU, 0) (PF, 0) 4 1) [(2, 2), (1, 1)] mem4
     = Some (simultaneous_pass 0 (PU, 0) (PF, 0) 4 1 mem4)"
    using d e by blast
  then show ?thesis using a b c d e t by simp
qed

theorem red_black_index_overflow:
  "(2 :: int) ^ 31 \<le> 46341 * 46341 \<and>
   in_block mem46341 (PU, 0) (46341 * 46341) \<and> in_block mem46341 (PF, 0) (46341 * 46341) \<and>
   separate (PU, 0) (PF, 0) (46341 * 46341) \<and>
   at_index 41709 (46339 + 1) 46341 = None \<and>
   rb_pass 0 (PU, 0) (PF, 0) 46341 1 mem46341 = None \<and>
   rb_pass 1 (PU, 0) (PF, 0) 46341 1 mem46341 = None \<and>
   gauss_seidel_red_black (PU, 0) (PF, 0) 46341 1 mem46341 = None"
  using mem46341_blocks(1) [of PU] mem46341_blocks(1) [of PF] mem46341_blocks(2)
  by (simp add: gauss_seidel_red_black_def rb_pass_46341 at_index_def c_int_def)

section \<open>The maximum norm under smoothing (C8)\<close>

lemma grid_points: "set (List.product [0..n - 1] [0..n - 1]) = {(i, j). on_grid n i j}"
  by (auto simp: on_grid_def)

lemma max_norm_ge: "on_grid n i j \<Longrightarrow> \<bar>entry m u n i j\<bar> \<le> max_norm m u n"
  unfolding max_norm_def
proof (rule Max_ge)
  assume g: "on_grid n i j"
  then have "(i, j) \<in> set (List.product [0..n - 1] [0..n - 1])" by (simp add: on_grid_def)
  then show "\<bar>entry m u n i j\<bar> \<in> set (map (\<lambda>(i, j). \<bar>entry m u n i j\<bar>) (List.product [0..n - 1] [0..n - 1]))"
    unfolding set_map by (rule image_eqI [rotated]) simp
qed simp

lemma max_norm_le:
  assumes "1 \<le> n" "\<And>i j. on_grid n i j \<Longrightarrow> \<bar>entry m u n i j\<bar> \<le> M"
  shows "max_norm m u n \<le> M"
proof -
  have "on_grid n 0 0" using assms(1) by (simp add: on_grid_def)
  then have "(0, 0) \<in> set (List.product [0..n - 1] [0..n - 1])" by (simp add: on_grid_def)
  then have ne: "set (map (\<lambda>(i, j). \<bar>entry m u n i j\<bar>) (List.product [0..n - 1] [0..n - 1])) \<noteq> {}"
    by auto
  show ?thesis
    unfolding max_norm_def using ne assms(2)
    by (subst Max_le_iff) (auto simp: on_grid_def)
qed

lemma max_norm_nonneg: "1 \<le> n \<Longrightarrow> 0 \<le> max_norm m u n"
  using max_norm_ge [of n 0 0 m u] by (simp add: on_grid_def)

lemma gs_value_bound:
  assumes f0: "entry m f n i j = 0"
    and ij: "(i, j) \<in> interior n"
    and bd: "bounded m u n M w"
    and adm: "admissible n w q"
    and M: "0 \<le> M"
  shows "\<bar>gs_value u f n h i j m\<bar> \<le> q * M * w i j"
proof -
  note g = interior_on_grid [OF ij]
  have e: "\<bar>entry m u n i (j + 1)\<bar> \<le> M * w i (j + 1)" "\<bar>entry m u n i (j - 1)\<bar> \<le> M * w i (j - 1)"
          "\<bar>entry m u n (i + 1) j\<bar> \<le> M * w (i + 1) j" "\<bar>entry m u n (i - 1) j\<bar> \<le> M * w (i - 1) j"
    using bd g by (simp_all add: bounded_def)
  have "gs_value u f n h i j m =
          (entry m u n i (j + 1) + entry m u n i (j - 1) + entry m u n (i + 1) j + entry m u n (i - 1) j) / 4"
    by (simp add: gs_value_def f0 diff_divide_distrib)
  then have "\<bar>gs_value u f n h i j m\<bar> \<le>
          (M * w i (j + 1) + M * w i (j - 1) + M * w (i + 1) j + M * w (i - 1) j) / 4"
    using e by simp
  also have "\<dots> = M * (w i (j + 1) + w i (j - 1) + w (i + 1) j + w (i - 1) j) / 4"
    by (simp add: algebra_simps)
  also have "\<dots> \<le> M * (4 * q * w i j) / 4"
    using adm ij M by (intro divide_right_mono mult_left_mono) (auto simp: admissible_def)
  finally show ?thesis by (simp add: algebra_simps)
qed

lemma bounded_mono: "bounded m u n M w \<Longrightarrow> M \<le> M' \<Longrightarrow> (\<forall>a b. on_grid n a b \<longrightarrow> 0 \<le> w a b) \<Longrightarrow> bounded m u n M' w"
  unfolding bounded_def by (meson mult_right_mono order_trans)

lemma gauss_seidel_contracts:
  assumes bu: "in_block m u (n * n)" and bf: "in_block m f (n * n)" and sep: "separate u f (n * n)"
    and hom: "homogeneous m u f n" and bd: "bounded m u n M w" and adm: "admissible n w q"
    and M: "0 \<le> M" and small: "n * n < 2 ^ 31"
  shows "\<exists>m'. gauss_seidel u f n h m = Some m' \<and> frame u n (interior n) m m' \<and>
            (\<forall>(a, b) \<in> interior n. \<bar>entry m' u n a b\<bar> \<le> q * M * w a b)"
proof -
  have "\<exists>m'. gauss_seidel u f n h m = Some m' \<and>
          (frame u n (interior n) m m' \<and> bounded m' u n M w \<and>
            (\<forall>(a, b) \<in> interior n. \<bar>entry m' u n a b\<bar> \<le> q * M * w a b))"
    unfolding gauss_seidel_loops [OF small]
  proof (rule sweep_rule [where Q = "\<lambda>D t. frame u n D m t \<and> bounded t u n M w \<and>
            (\<forall>(a, b) \<in> D. \<bar>entry t u n a b\<bar> \<le> q * M * w a b)"])
    show "frame u n {} m m \<and> bounded m u n M w \<and> (\<forall>(a, b) \<in> {}. \<bar>entry m u n a b\<bar> \<le> q * M * w a b)"
      using bd by simp
  next
    fix i j t
    assume ij: "(i, j) \<in> interior n"
      and Q: "frame u n (before n i j) m t \<and> bounded t u n M w \<and>
            (\<forall>(a, b) \<in> before n i j. \<bar>entry t u n a b\<bar> \<le> q * M * w a b)"
    let ?D = "before n i j"
    define x where "x = gs_value u f n h i j t"
    define t' where "t' = upd t u (idx n i j) x"
    from Q have fr: "frame u n ?D m t" and bt: "bounded t u n M w" by simp_all
    note g = interior_on_grid [OF ij]
    have tu: "in_block t u (n * n)" and tf: "in_block t f (n * n)"
      using fr bu bf by (auto intro: frame_in_block)
    have step: "gs_point u f n h i j t = Some t'"
      unfolding t'_def x_def using tu tf ij small by (rule gs_point_eq)
    have fr': "frame u n (insert (i, j) ?D) m t'"
      unfolding t'_def using fr bu g by (simp add: frame_upd)
    have ent: "entry t' u n a b = (if a = i \<and> b = j then x else entry t u n a b)"
      if "on_grid n a b" for a b
      unfolding t'_def using tu g that by (simp add: entry_upd)
    have "entry t f n i j = entry m f n i j"
      using fr before_interior sep bf g by (simp add: frame_separate_entry)
    then have f0: "entry t f n i j = 0" using hom g by (simp add: homogeneous_def)
    have xb: "\<bar>x\<bar> \<le> q * M * w i j"
      unfolding x_def using f0 ij bt adm M by (rule gs_value_bound)
    have w0: "0 \<le> w i j" using adm g by (simp add: admissible_def)
    have "q * M * w i j \<le> 1 * (M * w i j)"
      unfolding mult.assoc using adm M w0 by (intro mult_right_mono) (auto simp: admissible_def)
    then have xb': "\<bar>x\<bar> \<le> M * w i j" using xb by simp
    have bt': "bounded t' u n M w"
      using bt xb' by (auto simp: bounded_def ent)
    have "\<bar>entry t' u n a b\<bar> \<le> q * M * w a b" if ab: "(a, b) \<in> insert (i, j) ?D" for a b
    proof (cases "a = i \<and> b = j")
      case True
      then show ?thesis using xb g by (simp add: ent)
    next
      case False
      then have abD: "(a, b) \<in> ?D" using ab by auto
      then have "on_grid n a b" using interior_on_grid [of a b n] before_interior by auto
      then have "entry t' u n a b = entry t u n a b" using False by (auto simp: ent)
      then show ?thesis using Q abD by auto
    qed
    then show "\<exists>t'. gs_point u f n h i j t = Some t' \<and>
        (frame u n (insert (i, j) ?D) m t' \<and> bounded t' u n M w \<and>
            (\<forall>(a, b) \<in> insert (i, j) ?D. \<bar>entry t' u n a b\<bar> \<le> q * M * w a b))"
      using step fr' bt' by blast
  qed
  then show ?thesis by blast
qed

lemma pass_contracts:
  assumes bu: "in_block m u (n * n)" and bf: "in_block m f (n * n)" and sep: "separate u f (n * n)"
    and hom: "homogeneous m u f n" and bd: "bounded m u n M w" and adm: "admissible n w q"
    and M: "0 \<le> M" and small: "n * n < 2 ^ 31"
  shows "\<exists>m'. rb_pass c u f n h m = Some m' \<and> frame u n (interior n) m m' \<and> bounded m' u n M w \<and>
            (\<forall>(a, b) \<in> colour_points c n. \<bar>entry m' u n a b\<bar> \<le> q * M * w a b) \<and>
            (\<forall>a b. on_grid n a b \<and> (a, b) \<notin> colour_points c n \<longrightarrow> entry m' u n a b = entry m u n a b)"
proof -
  let ?C = "colour_points c n"
  obtain m' where m': "rb_pass c u f n h m = Some m'" "pass_inv c u f n h m (interior n) m'"
    using rb_pass_inv [OF bu bf sep small] by blast
  have IC: "interior n \<inter> ?C = ?C" using colour_points_interior by auto
  have fr: "frame u n ?C m m'" and val: "\<forall>(a, b) \<in> ?C. entry m' u n a b = gs_value u f n h a b m"
    using m'(2) by (simp_all add: pass_inv_def IC)
  have fr': "frame u n (interior n) m m'"
    using fr colour_points_interior by (rule frame_mono)
  have other: "entry m' u n a b = entry m u n a b" if "on_grid n a b" "(a, b) \<notin> ?C" for a b
    using fr bu that colour_points_interior by (rule frame_entry)
  have new: "\<bar>entry m' u n a b\<bar> \<le> q * M * w a b" if ab: "(a, b) \<in> ?C" for a b
  proof -
    have abi: "(a, b) \<in> interior n" using ab colour_points_interior by auto
    then have "entry m f n a b = 0" using hom interior_on_grid [OF abi] by (simp add: homogeneous_def)
    then have "\<bar>gs_value u f n h a b m\<bar> \<le> q * M * w a b"
      using abi bd adm M by (rule gs_value_bound)
    then show ?thesis using val ab by auto
  qed
  have "\<bar>entry m' u n a b\<bar> \<le> M * w a b" if g: "on_grid n a b" for a b
  proof (cases "(a, b) \<in> ?C")
    case True
    have w0: "0 \<le> w a b" using adm g by (simp add: admissible_def)
    have "q * M * w a b \<le> 1 * (M * w a b)"
      unfolding mult.assoc using adm M w0 by (intro mult_right_mono) (auto simp: admissible_def)
    then show ?thesis using new [OF True] by simp
  next
    case False
    then show ?thesis using other [OF g] bd g by (simp add: bounded_def)
  qed
  then have "bounded m' u n M w" by (simp add: bounded_def)
  then show ?thesis using m'(1) fr' new other by blast
qed

lemma frame_homogeneous:
  assumes "frame u n (interior n) m m'" "in_block m u (n * n)" "in_block m f (n * n)"
    "separate u f (n * n)" "homogeneous m u f n"
  shows "homogeneous m' u f n"
  using assms frame_boundary [OF assms(1,2)] frame_separate_entry [OF assms(1) subset_refl assms(4,3)]
  by (simp add: homogeneous_def)

lemma off_interior: "on_grid n a b \<Longrightarrow> (a, b) \<notin> interior n \<Longrightarrow> a = 0 \<or> a = n - 1 \<or> b = 0 \<or> b = n - 1"
  by (auto simp: on_grid_def interior_def)

lemma bounded_from_interior:
  assumes int: "\<forall>(a, b) \<in> interior n. \<bar>entry m' u n a b\<bar> \<le> q * M * w a b"
    and hom: "homogeneous m' u f n" and adm: "admissible n w q" and M: "0 \<le> M"
  shows "bounded m' u n (q * M) w"
  unfolding bounded_def
proof (intro allI impI)
  fix a b assume g: "on_grid n a b"
  show "\<bar>entry m' u n a b\<bar> \<le> q * M * w a b"
  proof (cases "(a, b) \<in> interior n")
    case True
    then show ?thesis using int by auto
  next
    case False
    then have "entry m' u n a b = 0"
      using hom g off_interior [OF g False] by (simp add: homogeneous_def)
    moreover have "0 \<le> q * M * w a b"
      using adm M g by (simp add: admissible_def)
    ultimately show ?thesis by simp
  qed
qed

lemma smoother_contracts:
  assumes bu: "in_block m u (n * n)" and bf: "in_block m f (n * n)" and sep: "separate u f (n * n)"
    and hom: "homogeneous m u f n" and bd: "bounded m u n M w" and adm: "admissible n w q"
    and M: "0 \<le> M" and small: "n * n < 2 ^ 31"
  shows "\<exists>m'. smoother_call S u f n h m = Some m' \<and> in_block m' u (n * n) \<and> in_block m' f (n * n) \<and>
            homogeneous m' u f n \<and> bounded m' u n (q * M) w"
proof (cases S)
  case GaussSeidel
  obtain m' where m': "gauss_seidel u f n h m = Some m'" "frame u n (interior n) m m'"
      "\<forall>(a, b) \<in> interior n. \<bar>entry m' u n a b\<bar> \<le> q * M * w a b"
    using gauss_seidel_contracts [OF assms] by blast
  have hom': "homogeneous m' u f n" using m'(2) bu bf sep hom by (rule frame_homogeneous)
  have "bounded m' u n (q * M) w" using m'(3) hom' adm M by (rule bounded_from_interior)
  then show ?thesis
    using GaussSeidel m'(1) hom' frame_in_block [OF m'(2)] bu bf by simp
next
  case GaussSeidelRedBlack
  obtain m1 where m1: "rb_pass 0 u f n h m = Some m1" "frame u n (interior n) m m1"
      "bounded m1 u n M w" "\<forall>(a, b) \<in> colour_points 0 n. \<bar>entry m1 u n a b\<bar> \<le> q * M * w a b"
    using pass_contracts [OF assms, of 0 h] by blast
  have bu1: "in_block m1 u (n * n)" and bf1: "in_block m1 f (n * n)"
    using frame_in_block [OF m1(2)] bu bf by auto
  have hom1: "homogeneous m1 u f n" using m1(2) bu bf sep hom by (rule frame_homogeneous)
  obtain m2 where m2: "rb_pass 1 u f n h m1 = Some m2" "frame u n (interior n) m1 m2"
      "\<forall>(a, b) \<in> colour_points 1 n. \<bar>entry m2 u n a b\<bar> \<le> q * M * w a b"
      "\<forall>a b. on_grid n a b \<and> (a, b) \<notin> colour_points 1 n \<longrightarrow> entry m2 u n a b = entry m1 u n a b"
    using pass_contracts [OF bu1 bf1 sep hom1 m1(3) adm M small, of 1 h] by blast
  have hom2: "homogeneous m2 u f n" using m2(2) bu1 bf1 sep hom1 by (rule frame_homogeneous)
  have "\<bar>entry m2 u n a b\<bar> \<le> q * M * w a b" if ab: "(a, b) \<in> interior n" for a b
  proof (cases "(a + b) mod 2 = 1")
    case True
    then have "(a, b) \<in> colour_points 1 n" using ab by (simp add: colour_points_def)
    then show ?thesis using m2(3) by auto
  next
    case False
    then have "(a + b) mod 2 = 0" by presburger
    then have c0: "(a, b) \<in> colour_points 0 n" and c1: "(a, b) \<notin> colour_points 1 n"
      using ab by (simp_all add: colour_points_def)
    have "entry m2 u n a b = entry m1 u n a b"
      using m2(4) c1 interior_on_grid [OF ab] by simp
    then show ?thesis using m1(4) c0 by auto
  qed
  then have "\<forall>(a, b) \<in> interior n. \<bar>entry m2 u n a b\<bar> \<le> q * M * w a b" by blast
  then have "bounded m2 u n (q * M) w" using hom2 adm M by (rule bounded_from_interior)
  then show ?thesis
    using GaussSeidelRedBlack m1(1) m2(1) hom2 frame_in_block [OF m2(2)] bu1 bf1
    by (simp add: gauss_seidel_red_black_def)
qed

lemma smooth_many_contracts:
  assumes bu: "in_block m u (n * n)" and bf: "in_block m f (n * n)" and sep: "separate u f (n * n)"
    and hom: "homogeneous m u f n" and bd: "bounded m u n M w" and adm: "admissible n w q"
    and M: "0 \<le> M" and small: "n * n < 2 ^ 31"
  shows "\<exists>mk. smooth_many (replicate k S) u f n h m = Some mk \<and> in_block mk u (n * n) \<and>
            in_block mk f (n * n) \<and> homogeneous mk u f n \<and> bounded mk u n (q ^ k * M) w"
  using bu bf hom bd M
proof (induction k arbitrary: m M)
  case 0
  then show ?case by simp
next
  case (Suc k)
  obtain m1 where m1: "smoother_call S u f n h m = Some m1" "in_block m1 u (n * n)"
      "in_block m1 f (n * n)" "homogeneous m1 u f n" "bounded m1 u n (q * M) w"
    using smoother_contracts [OF Suc.prems(1,2) sep Suc.prems(3,4) adm Suc.prems(5) small] by blast
  have "0 \<le> q * M" using adm Suc.prems(5) by (simp add: admissible_def)
  from Suc.IH [OF m1(2,3,4,5) this]
  obtain mk where mk: "smooth_many (replicate k S) u f n h m1 = Some mk" "in_block mk u (n * n)"
      "in_block mk f (n * n)" "homogeneous mk u f n" "bounded mk u n (q ^ k * (q * M)) w"
    by blast
  have "q ^ k * (q * M) = q ^ Suc k * M" by simp
  then have "bounded mk u n (q ^ Suc k * M) w" using mk(5) by (simp only:)
  then show ?case using m1(1) mk(1-4) by simp
qed

lemma smooth_many_snoc:
  "smooth_many (Ss @ [S]) u f n h m =
     (case smooth_many Ss u f n h m of None \<Rightarrow> None | Some mk \<Rightarrow> smoother_call S u f n h mk)"
  by (induction Ss arbitrary: m) (auto split: option.splits)

lemma admissible_unit: "admissible n (\<lambda>i j. 1) 1"
  by (simp add: admissible_def)

lemma bounded_max_norm: "bounded m u n (max_norm m u n) (\<lambda>i j. 1)"
  by (simp add: bounded_def max_norm_ge)

lemma smoother_norm_step:
  assumes n: "1 \<le> n" and bu: "in_block m u (n * n)" and bf: "in_block m f (n * n)"
    and sep: "separate u f (n * n)" and hom: "homogeneous m u f n" and small: "n * n < 2 ^ 31"
  shows "\<exists>m'. smoother_call S u f n h m = Some m' \<and> max_norm m' u n \<le> max_norm m u n"
proof -
  obtain m' where m': "smoother_call S u f n h m = Some m'"
      "bounded m' u n (1 * max_norm m u n) (\<lambda>i j. 1)"
    using smoother_contracts [OF bu bf sep hom bounded_max_norm admissible_unit max_norm_nonneg [OF n] small]
    by blast
  have "max_norm m' u n \<le> max_norm m u n"
    using n m'(2) by (intro max_norm_le) (auto simp: bounded_def)
  then show ?thesis using m'(1) by blast
qed

lemma barrier_range:
  assumes "1 \<le> n" "on_grid n i j"
  shows "1 \<le> barrier n i j" "barrier n i j \<le> real_of_int (n * n)"
proof -
  have i: "0 \<le> i" "i \<le> n - 1" using assms(2) by (simp_all add: on_grid_def)
  have "i * i \<le> (n - 1) * (n - 1)" using i by (intro mult_mono) auto
  also have "\<dots> = n * n - 2 * n + 1" by (simp add: algebra_simps)
  finally have "1 \<le> n * n - i * i" using assms(1) by simp
  then show "1 \<le> barrier n i j" unfolding barrier_def by linarith
  have "0 \<le> i * i" by simp
  then show "barrier n i j \<le> real_of_int (n * n)" unfolding barrier_def by linarith
qed

lemma rate_range: "1 \<le> n \<Longrightarrow> 0 \<le> rate n \<and> rate n < 1"
proof -
  assume n: "1 \<le> n"
  have "1 * 1 \<le> n * n" using n by (intro mult_mono) auto
  then have "1 \<le> real_of_int (n * n)" by linarith
  then show ?thesis unfolding rate_def by (simp add: field_simps)
qed

lemma admissible_barrier:
  assumes n: "1 \<le> n"
  shows "admissible n (barrier n) (rate n)"
  unfolding admissible_def
proof (intro conjI allI impI ballI)
  show "0 \<le> rate n" "rate n \<le> 1" using rate_range [OF n] by simp_all
next
  fix a b assume "on_grid n a b"
  then show "0 \<le> barrier n a b" using barrier_range(1) [OF n] by fastforce
next
  fix p assume p: "p \<in> interior n"
  obtain i j where ij: "p = (i, j)" by (cases p)
  have g: "on_grid n i j" using interior_on_grid [of i j n] p ij by simp
  define N where "N = real_of_int (n * n)"
  define W where "W = barrier n i j"
  have W: "1 \<le> W" "W \<le> N" unfolding W_def N_def using barrier_range [OF n g] by simp_all
  then have N: "0 < N" by simp
  have "W / N \<le> 1" using W N by (simp add: field_simps)
  then have le: "4 * W - 2 \<le> 4 * W - 2 * (W / N)" by simp
  have sum: "barrier n i (j + 1) + barrier n i (j - 1) + barrier n (i + 1) j + barrier n (i - 1) j
          = 4 * W - 2"
    unfolding W_def barrier_def by (simp add: algebra_simps)
  have "4 * rate n * barrier n i j = 4 * W - 2 * (W / N)"
    unfolding rate_def N_def [symmetric] W_def [symmetric] using N by (simp add: field_simps)
  then show "case p of (i, j) \<Rightarrow>
      barrier n i (j + 1) + barrier n i (j - 1) + barrier n (i + 1) j + barrier n (i - 1) j
        \<le> 4 * rate n * barrier n i j"
    using sum le ij by simp
qed

lemma bounded_barrier:
  assumes n: "1 \<le> n"
  shows "bounded m u n (max_norm m u n) (barrier n)"
  unfolding bounded_def
proof (intro allI impI)
  fix a b assume g: "on_grid n a b"
  have "\<bar>entry m u n a b\<bar> \<le> max_norm m u n * 1" using max_norm_ge [OF g] by simp
  also have "\<dots> \<le> max_norm m u n * barrier n a b"
    using barrier_range(1) [OF n g] max_norm_nonneg [OF n] by (intro mult_left_mono) auto
  finally show "\<bar>entry m u n a b\<bar> \<le> max_norm m u n * barrier n a b" .
qed

lemma smooth_many_decay:
  assumes n: "1 \<le> n" and bu: "in_block m u (n * n)" and bf: "in_block m f (n * n)"
    and sep: "separate u f (n * n)" and hom: "homogeneous m u f n" and small: "n * n < 2 ^ 31"
  shows "\<exists>mk. smooth_many (replicate k S) u f n h m = Some mk \<and> in_block mk u (n * n) \<and>
            in_block mk f (n * n) \<and> homogeneous mk u f n \<and>
            max_norm mk u n \<le> rate n ^ k * (max_norm m u n * real_of_int (n * n))"
proof -
  let ?M = "max_norm m u n"
  obtain mk where mk: "smooth_many (replicate k S) u f n h m = Some mk" "in_block mk u (n * n)"
      "in_block mk f (n * n)" "homogeneous mk u f n" "bounded mk u n (rate n ^ k * ?M) (barrier n)"
    using smooth_many_contracts [OF bu bf sep hom bounded_barrier [OF n] admissible_barrier [OF n]
        max_norm_nonneg [OF n] small] by blast
  have c: "0 \<le> rate n ^ k * ?M" using rate_range [OF n] max_norm_nonneg [OF n] by simp
  have "max_norm mk u n \<le> rate n ^ k * ?M * real_of_int (n * n)"
  proof (rule max_norm_le [OF n])
    fix i j assume g: "on_grid n i j"
    have "\<bar>entry mk u n i j\<bar> \<le> rate n ^ k * ?M * barrier n i j"
      using mk(5) g by (simp add: bounded_def)
    also have "\<dots> \<le> rate n ^ k * ?M * real_of_int (n * n)"
      using barrier_range(2) [OF n g] c by (intro mult_left_mono) auto
    finally show "\<bar>entry mk u n i j\<bar> \<le> rate n ^ k * ?M * real_of_int (n * n)" .
  qed
  then show ?thesis using mk(1-4) by (auto simp: mult.assoc)
qed

text \<open>
  Claim C8, amended. In arithmetic without overflow and rounding (the scalars are the
  real numbers), for every \<open>n \<ge> 3\<close> with \<open>n \<cdot> n < 2\<^sup>3\<^sup>1\<close> and every \<open>h\<close>: let \<open>f\<close>
  be identically zero and \<open>u\<close> zero on the boundary, on separate fields of \<open>n \<times> n\<close>
  elements. Then every application of either smoother returns and does not increase the
  discrete maximum norm of \<open>u\<close>, after any number of earlier applications; and repeated
  application drives \<open>u\<close> to the zero field: the norm falls below every positive bound
  and stays there. Over IEEE scalars \<open>h \<cdot> h\<close> can overflow: at \<open>h = 10\<^sup>2\<^sup>0\<^sup>0\<close> the
  smoother stores \<open>\<infinity> \<cdot> 0\<close>, a NaN; and at \<open>n = 46341\<close> the \<open>int\<close> indices overflow.
\<close>

theorem smoother_norm_decreases:
  assumes "3 \<le> n" "in_block m u (n * n)" "in_block m f (n * n)" "separate u f (n * n)"
    and "\<forall>i j. on_grid n i j \<longrightarrow> entry m f n i j = 0"
    and "\<forall>i j. on_grid n i j \<and> (i = 0 \<or> i = n - 1 \<or> j = 0 \<or> j = n - 1) \<longrightarrow> entry m u n i j = 0"
    and "n * n < 2 ^ 31"
  shows "(\<forall>k. \<exists>mk mk'. smooth_many (replicate k S) u f n h m = Some mk \<and>
                 smoother_call S u f n h mk = Some mk' \<and>
                 smooth_many (replicate (Suc k) S) u f n h m = Some mk' \<and>
                 max_norm mk' u n \<le> max_norm mk u n) \<and>
         (\<forall>e > 0. \<exists>K. \<forall>k \<ge> K. \<exists>mk. smooth_many (replicate k S) u f n h m = Some mk \<and>
                 max_norm mk u n < e)"
proof (intro conjI allI impI)
  have n: "1 \<le> n" using assms(1) by simp
  have hom: "homogeneous m u f n" using assms(5,6) by (simp add: homogeneous_def)
  note dec = smooth_many_decay [OF n assms(2,3,4) hom assms(7)]
  {
    fix k
    obtain mk where mk: "smooth_many (replicate k S) u f n h m = Some mk" "in_block mk u (n * n)"
        "in_block mk f (n * n)" "homogeneous mk u f n"
      using dec [of k S h] by blast
    obtain mk' where mk': "smoother_call S u f n h mk = Some mk'" "max_norm mk' u n \<le> max_norm mk u n"
      using smoother_norm_step [OF n mk(2,3) assms(4) mk(4) assms(7)] by blast
    have "replicate (Suc k) S = replicate k S @ [S]" by (simp add: replicate_append_same)
    then have "smooth_many (replicate (Suc k) S) u f n h m = Some mk'"
      using mk(1) mk'(1) by (simp only: smooth_many_snoc) simp
    then show "\<exists>mk mk'. smooth_many (replicate k S) u f n h m = Some mk \<and>
                 smoother_call S u f n h mk = Some mk' \<and>
                 smooth_many (replicate (Suc k) S) u f n h m = Some mk' \<and>
                 max_norm mk' u n \<le> max_norm mk u n"
      using mk(1) mk' by blast
  }
  {
    fix e :: real assume e: "0 < e"
    define C where "C = max_norm m u n * real_of_int (n * n) + 1"
    have C0: "0 \<le> max_norm m u n * real_of_int (n * n)"
      using max_norm_nonneg [OF n] by simp
    then have C: "0 < C" "max_norm m u n * real_of_int (n * n) \<le> C" by (simp_all add: C_def)
    have r: "0 \<le> rate n" "rate n < 1" using rate_range [OF n] by simp_all
    obtain K where K: "rate n ^ K < e / C"
      using real_arch_pow_inv [of "e / C" "rate n"] e C(1) r(2) by auto
    have "\<exists>mk. smooth_many (replicate k S) u f n h m = Some mk \<and> max_norm mk u n < e"
      if k: "K \<le> k" for k
    proof -
      obtain mk where mk: "smooth_many (replicate k S) u f n h m = Some mk"
          "max_norm mk u n \<le> rate n ^ k * (max_norm m u n * real_of_int (n * n))"
        using dec [of k S h] by blast
      have "rate n ^ k \<le> rate n ^ K" using k r by (intro power_decreasing) auto
      then have "rate n ^ k * (max_norm m u n * real_of_int (n * n)) \<le> rate n ^ K * C"
        using C C0 r by (intro mult_mono) auto
      also have "\<dots> < e / C * C" using K C(1) by (intro mult_strict_right_mono) auto
      also have "\<dots> = e" using C(1) by simp
      finally show ?thesis using mk by force
    qed
    then show "\<exists>K. \<forall>k \<ge> K. \<exists>mk. smooth_many (replicate k S) u f n h m = Some mk \<and>
                 max_norm mk u n < e"
      by blast
  }
qed

lemma mem4h_sweeps:
  "gauss_seidel (PU, 0) (PF, 0) 4 (1 / 2) mem4h = Some mem4h1"
  "gauss_seidel (PU, 0) (PF, 0) 4 (1 / 2) mem4h1 = Some mem4h2"
  by (simp_all add: gauss_seidel_def gs_point_def for_loop.simps c_int_def at_index_def
        ld_def st_def valid_def cell_def upd_def mem4h_def mem4h1_def mem4h2_def)

lemma mem4h_norms:
  "max_norm mem4h (PU, 0) 4 = 8" "max_norm mem4h1 (PU, 0) 4 = 4" "max_norm mem4h2 (PU, 0) 4 = 3 / 2"
  by (simp_all add: max_norm_def entry_def cell_def idx_def mem4h_def mem4h1_def mem4h2_def
        upto.simps)

theorem smoother_norm_decreases_witness:
  "3 \<le> (4 :: int) \<and> in_block mem4h (PU, 0) (4 * 4) \<and> in_block mem4h (PF, 0) (4 * 4) \<and>
   separate (PU, 0) (PF, 0) (4 * 4) \<and> entry mem4h (PF, 0) 4 1 1 = 0 \<and> entry mem4h (PU, 0) 4 0 2 = 0 \<and>
   (4 :: int) * 4 < 2 ^ 31 \<and>
   smooth_many (replicate 1 GaussSeidel) (PU, 0) (PF, 0) 4 (1 / 2) mem4h = Some mem4h1 \<and>
   smoother_call GaussSeidel (PU, 0) (PF, 0) 4 (1 / 2) mem4h1 = Some mem4h2 \<and>
   max_norm mem4h2 (PU, 0) 4 \<le> max_norm mem4h1 (PU, 0) 4 \<and>
   max_norm mem4h (PU, 0) 4 = 8 \<and> max_norm mem4h1 (PU, 0) 4 = 4 \<and> max_norm mem4h2 (PU, 0) 4 = 3 / 2 \<and>
   (\<exists>K. \<forall>k \<ge> K. \<exists>mk. smooth_many (replicate k GaussSeidel) (PU, 0) (PF, 0) 4 (1 / 2) mem4h = Some mk \<and>
       max_norm mk (PU, 0) 4 < 1 / 1000)"
proof -
  have a: "in_block mem4h (PU, 0) (4 * 4)" and b: "in_block mem4h (PF, 0) (4 * 4)"
    and c: "separate (PU, 0) (PF, 0) (4 * 4)"
    by (simp_all add: in_block_def separate_def mem4h_def)
  have ij: "(i = 0 \<or> i = 1 \<or> i = 2 \<or> i = 3) \<and> (j = 0 \<or> j = 1 \<or> j = 2 \<or> j = 3)"
    if "on_grid 4 i j" for i j
    using that unfolding on_grid_def by arith
  have f0: "\<forall>i j. on_grid 4 i j \<longrightarrow> entry mem4h (PF, 0) 4 i j = 0"
  proof (intro allI impI)
    fix i j :: int assume "on_grid 4 i j"
    from ij [OF this] show "entry mem4h (PF, 0) 4 i j = 0"
      by (auto simp: entry_def cell_def idx_def mem4h_def)
  qed
  have u0: "\<forall>i j. on_grid 4 i j \<and> (i = 0 \<or> i = 4 - 1 \<or> j = 0 \<or> j = 4 - 1)
              \<longrightarrow> entry mem4h (PU, 0) 4 i j = 0"
  proof (intro allI impI)
    fix i j :: int
    assume g: "on_grid 4 i j \<and> (i = 0 \<or> i = 4 - 1 \<or> j = 0 \<or> j = 4 - 1)"
    with ij [of i j] show "entry mem4h (PU, 0) 4 i j = 0"
      by (auto simp: entry_def cell_def idx_def mem4h_def)
  qed
  have n: "3 \<le> (4 :: int)" and sm: "(4 :: int) * 4 < 2 ^ 31" by simp_all
  note t = smoother_norm_decreases [OF n a b c f0 u0 sm, of GaussSeidel "1 / 2"]
  have r1: "smooth_many (replicate 1 GaussSeidel) (PU, 0) (PF, 0) 4 (1 / 2) mem4h = Some mem4h1"
    and r2: "smoother_call GaussSeidel (PU, 0) (PF, 0) 4 (1 / 2) mem4h1 = Some mem4h2"
    by (simp_all add: mem4h_sweeps)
  from t [THEN conjunct1, rule_format, of 1]
  have 1: "max_norm mem4h2 (PU, 0) 4 \<le> max_norm mem4h1 (PU, 0) 4"
    unfolding r1 using r2 by auto
  have 2: "\<exists>K. \<forall>k \<ge> K. \<exists>mk. smooth_many (replicate k GaussSeidel) (PU, 0) (PF, 0) 4 (1 / 2) mem4h = Some mk \<and>
       max_norm mk (PU, 0) 4 < 1 / 1000"
    using t [THEN conjunct2, rule_format, of "1 / 1000"] by simp
  have "entry mem4h (PF, 0) 4 1 1 = 0" "entry mem4h (PU, 0) 4 0 2 = 0"
    by (simp_all add: entry_def cell_def idx_def mem4h_def)
  then show ?thesis using a b c r1 r2 1 2 mem4h_norms by simp
qed

theorem smoother_norm_overflow:
  "cell mem3i (PU, 0) (idx 3 1 1) = Number 8 \<and>
   gauss_seidel_ieee (PU, 0) (PF, 0) 3 (Number (10 ^ 200)) mem3i = Some mem3i_nan \<and>
   cell mem3i_nan (PU, 0) (idx 3 1 1) = NaN \<and>
   \<not> ieee_le (ieee_abs (cell mem3i_nan (PU, 0) (idx 3 1 1))) (Number 8) \<and>
   (3 :: int) \<le> 46341 \<and> (2 :: int) ^ 31 \<le> 46341 * 46341 \<and>
   in_block mem46341 (PU, 0) (46341 * 46341) \<and> in_block mem46341 (PF, 0) (46341 * 46341) \<and>
   smoother_call GaussSeidel (PU, 0) (PF, 0) 46341 1 mem46341 = None \<and>
   smoother_call GaussSeidelRedBlack (PU, 0) (PF, 0) 46341 1 mem46341 = None"
proof -
  have "gauss_seidel_ieee (PU, 0) (PF, 0) 3 (Number (10 ^ 200)) mem3i = Some mem3i_nan"
    by (simp add: gauss_seidel_ieee_def gs_point_ieee_def for_loop.simps c_int_def at_index_def
          ld_def st_def valid_def cell_def upd_def mem3i_def mem3i_nan_def ieee_round_def)
  moreover have "cell mem3i (PU, 0) (idx 3 1 1) = Number 8"
      "cell mem3i_nan (PU, 0) (idx 3 1 1) = NaN"
    by (simp_all add: cell_def idx_def mem3i_def mem3i_nan_def)
  ultimately show ?thesis
    using mem46341_blocks(1) [of PU] mem46341_blocks(1) [of PF]
      smoother_call_46341 [of GaussSeidel] smoother_call_46341 [of GaussSeidelRedBlack]
    by simp
qed

section \<open>Levels, written blocks and grid transfers\<close>

lemma writes_within_shape: "writes_within p cnt m m' \<Longrightarrow> same_shape m m'"
  by (simp add: writes_within_def)

lemma writes_within_in_block: "writes_within p cnt m m' \<Longrightarrow> in_block m q c \<Longrightarrow> in_block m' q c"
  by (simp add: writes_within_def same_shape_def in_block_def)

lemma same_shape_in_block: "same_shape m m' \<Longrightarrow> in_block m q c \<Longrightarrow> in_block m' q c"
  by (simp add: same_shape_def in_block_def)

lemma frame_writes_within: "frame u n (interior n) m m' \<Longrightarrow> writes_within u (n * n) m m'"
  using frame_outside [of u n m m'] by (auto simp: writes_within_def frame_def)

lemma zero_on_writes_within:
  assumes "zero_on m b lo hi" "writes_within p cnt m m'"
    and "fst p \<noteq> b \<or> hi \<le> snd p \<or> snd p + cnt \<le> lo"
  shows "zero_on m' b lo hi"
  using assms unfolding zero_on_def writes_within_def by (metis linorder_not_less order_trans)

lemma zero_on_sub: "zero_on m b lo hi \<Longrightarrow> lo \<le> lo' \<Longrightarrow> hi' \<le> hi \<Longrightarrow> zero_on m b lo' hi'"
  by (auto simp: zero_on_def)

lemma peek_zero:
  assumes "in_block m p cnt" "zero_on m (fst p) (snd p) (snd p + cnt)"
  shows "peek m p cnt = replicate (nat cnt) 0"
proof (rule nth_equalityI)
  show len: "length (peek m p cnt) = length (replicate (nat cnt) (0::real))"
    using assms(1) by (auto simp: peek_def in_block_def)
  fix i assume "i < length (peek m p cnt)"
  then have i: "i < nat cnt" using len by simp
  have le: "nat (snd p) \<le> length (m (fst p))"
    using assms(1) i by (auto simp: in_block_def)
  have "peek m p cnt ! i = m (fst p) ! (nat (snd p) + i)"
    using i le by (simp add: peek_def)
  also have "\<dots> = 0"
    using assms i by (auto simp: zero_on_def in_block_def)
  finally show "peek m p cnt ! i = replicate (nat cnt) 0 ! i" using i by simp
qed

lemma poke_length:
  "in_block m p (int (length xs)) \<Longrightarrow> length (poke m p xs b) = length (m b)"
  by (auto simp: poke_def in_block_def)

lemma poke_outside:
  assumes "in_block m p (int (length xs))"
    and "\<not> (b = fst p \<and> snd p \<le> int k \<and> int k < snd p + int (length xs))"
  shows "poke m p xs b ! k = m b ! k"
proof (cases "b = fst p")
  case False
  then show ?thesis by (simp add: poke_def)
next
  case True
  have p0: "0 \<le> snd p" "nat (snd p) + length xs \<le> length (m (fst p))"
    using assms(1) by (auto simp: in_block_def)
  consider "k < nat (snd p)" | "nat (snd p) + length xs \<le> k"
    using assms(2) True p0 by (cases "k < nat (snd p)") auto
  then show ?thesis
  proof cases
    case 1
    then show ?thesis using True p0 by (simp add: poke_def nth_append)
  next
    case 2
    then show ?thesis using True p0 by (auto simp: poke_def nth_append)
  qed
qed

lemma st_block_writes_within:
  assumes "in_block m p (int (length xs))"
  shows "st_block m p xs = Some (poke m p xs) \<and> writes_within p (int (length xs)) m (poke m p xs)"
  using assms poke_length [OF assms] poke_outside [OF assms]
  by (simp add: st_block_def writes_within_def same_shape_def)

lemma grid_transfer_returns:
  assumes "in_block m src (sn * sm)" "in_block m dst (dn * dm)" "0 \<le> dn * dm"
  shows "\<exists>m'. grid_transfer Op dst dn dm src sn sm a b m = Some m' \<and> writes_within dst (dn * dm) m m'"
proof -
  define xs where "xs = map (\<lambda>k. a * peek m dst (dn * dm) ! k + b * Op dn dm sn sm (peek m src (sn * sm)) k)
                    [0..<nat (dn * dm)]"
  have len: "int (length xs) = dn * dm" using assms(3) by (simp add: xs_def)
  then have "in_block m dst (int (length xs))" using assms(2) by simp
  from st_block_writes_within [OF this] show ?thesis
    using assms(1,2) len by (simp add: grid_transfer_def ld_block_def xs_def)
qed

lemma level_dim_pos: "2 \<le> level_dim l"
  by (simp add: level_dim_def)

lemma level_cells_pos: "0 \<le> level_cells l"
  by (simp add: level_cells_def)

lemma level_dim_step: "1 \<le> l \<Longrightarrow> level_dim l = 2 * level_dim (l - 1) - 1"
proof -
  assume "1 \<le> l"
  then have "nat l = Suc (nat (l - 1))" by simp
  then show ?thesis by (simp add: level_dim_def)
qed

lemma level_cells_double: "1 \<le> l \<Longrightarrow> 2 * level_cells (l - 1) \<le> level_cells l"
proof -
  assume l: "1 \<le> l"
  define a where "a = level_dim (l - 1)"
  have a: "2 \<le> a" unfolding a_def by (rule level_dim_pos)
  have "level_cells l = (2 * a - 1) * (2 * a - 1)"
    unfolding level_cells_def a_def using level_dim_step [OF l] by simp
  also have "\<dots> = 2 * (a * a) + (2 * (a * a) - 4 * a + 1)" by (simp add: algebra_simps)
  finally have eq: "level_cells l = 2 * (a * a) + (2 * (a * a) - 4 * a + 1)" .
  have "2 * a \<le> a * a" using a by (intro mult_right_mono) auto
  then have "0 \<le> 2 * (a * a) - 4 * a + 1" by simp
  then show ?thesis unfolding eq by (simp add: level_cells_def a_def [symmetric])
qed

lemma level_cells_mono_step: "1 \<le> l \<Longrightarrow> level_cells (l - 1) \<le> level_cells l"
  using level_cells_double [of l] level_cells_pos [of "l - 1"] by simp

lemma level_dim_le: "l \<le> k \<Longrightarrow> level_dim l \<le> level_dim k"
  by (simp add: level_dim_def power_increasing nat_mono)

lemma level_cells_le: "l \<le> k \<Longrightarrow> level_cells l \<le> level_cells k"
  unfolding level_cells_def
  using level_dim_le [of l k] level_dim_pos [of l] by (intro mult_mono) auto

lemma level_cells_small: "l \<le> 15 \<Longrightarrow> level_cells l < 2 ^ 31"
  using level_cells_le [of l 15] by (simp add: level_cells_def level_dim_def)

lemma level_sizes_eq:
  assumes "1 < l" "l \<le> 16"
  shows "level_sizes l = Some (level_dim l, level_dim (l - 1), level_cells (l - 1))"
proof -
  have "level_dim l \<le> level_dim 16" "level_dim (l - 1) \<le> level_dim 16"
    using assms by (simp_all add: level_dim_le)
  then have d: "level_dim l < 2 ^ 31" "level_dim (l - 1) < 2 ^ 31"
    by (simp_all add: level_dim_def)
  have c: "level_cells (l - 1) < 2 ^ 31" using assms level_cells_small [of "l - 1"] by simp
  have p: "0 \<le> level_dim l" "0 \<le> level_dim (l - 1)" "0 \<le> level_cells (l - 1)"
    using level_dim_pos [of l] level_dim_pos [of "l - 1"] level_cells_pos [of "l - 1"] by simp_all
  have 1: "shift_left1 l = Some (2 ^ nat l)" "shift_left1 (l - 1) = Some (2 ^ nat (l - 1))"
    using assms by (simp_all add: shift_left1_def)
  have 2: "c_int (2 ^ nat l + 1) = Some (level_dim l)"
          "c_int (2 ^ nat (l - 1) + 1) = Some (level_dim (l - 1))"
    using d p by (simp_all add: c_int_def level_dim_def)
  have 3: "c_int (l - 1) = Some (l - 1)" using assms by (simp add: c_int_def)
  have 4: "c_int (level_dim (l - 1) * level_dim (l - 1)) = Some (level_cells (l - 1))"
    unfolding level_cells_def [symmetric] using c p(3) by (intro c_int_Some) linarith+
  show ?thesis by (simp add: level_sizes_def 1 2 3 4)
qed

section \<open>The run of a V-cycle\<close>

lemma recursions_append [simp]: "recursions (xs @ ys) = recursions xs @ recursions ys"
  by (induction xs rule: recursions.induct) simp_all

lemma snapshots_append [simp]: "snapshots (xs @ ys) = snapshots xs @ snapshots ys"
  by (induction xs rule: snapshots.induct) simp_all

lemma smoother_dims_append [simp]: "smoother_dims (xs @ ys) = smoother_dims xs @ smoother_dims ys"
  by (induction xs rule: smoother_dims.induct) simp_all

lemma call_Some: "k (mem s) = Some m' \<Longrightarrow> call e k s = Some \<lparr>mem = m', history = history s @ [e]\<rparr>"
  by (simp add: call_def)

lemma v_cycle_base:
  "multigrid_v_cycle G 1 S u f r v w h s = inline (base_case u f h) s"
  by (simp add: multigrid_v_cycle.simps)

lemma v_cycle_rec:
  assumes "1 < l" "l \<le> 16"
  shows "multigrid_v_cycle G l S u f r v w h s =
     do {
       s1 \<leftarrow> call (Call_smoother u f (level_dim l) h) (smoother_call S u f (level_dim l) h) s;
       s2 \<leftarrow> call (Call_poisson_residual r u f (level_dim l) h)
               (poisson_residual r u f (level_dim l) h) s1;
       s3 \<leftarrow> call (Call_grid_restrict (ptr_add w (level_cells (l - 1))) (level_dim (l - 1))
                 (level_dim (l - 1)) r (level_dim l) (level_dim l) 0 1)
               (grid_restrict G (ptr_add w (level_cells (l - 1))) (level_dim (l - 1))
                 (level_dim (l - 1)) r (level_dim l) (level_dim l) 0 1) s2;
       s4 \<leftarrow> multigrid_v_cycle G (l - 1) S (ptr_add v (level_cells (l - 1)))
               (ptr_add w (level_cells (l - 1))) r v w (2 * h)
               (record_call (Call_multigrid_v_cycle (l - 1) (ptr_add v (level_cells (l - 1)))
                  (ptr_add w (level_cells (l - 1))) r v w (2 * h)
                  (peek (mem s3) (ptr_add v (level_cells (l - 1))) (level_cells (l - 1)))) s3);
       s5 \<leftarrow> call (Call_grid_prolongate u (level_dim l) (level_dim l)
                 (ptr_add v (level_cells (l - 1))) (level_dim (l - 1)) (level_dim (l - 1)) 1 1)
               (grid_prolongate G u (level_dim l) (level_dim l)
                 (ptr_add v (level_cells (l - 1))) (level_dim (l - 1)) (level_dim (l - 1)) 1 1) s4;
       call (Call_smoother u f (level_dim l) h) (smoother_call S u f (level_dim l) h) s5
     }"
  using assms(1)
  by (subst multigrid_v_cycle.simps)
     (simp add: level_sizes_eq [OF assms] Let_def split: option.splits)

lemma v_cycle_16: "multigrid_v_cycle G 16 S u f r v w h s = None"
proof -
  have "level_dim 16 = 65537" by (simp add: level_dim_def)
  then show ?thesis
    by (simp add: v_cycle_rec call_def smoother_call_65537)
qed

lemma mem65537_ready: "ready 16 (PU, 0) (PF, 0) (MR, 0) (MV, 0) (MW, 0) mem65537"
  by (simp add: ready_def in_block_def mem65537_def level_cells_def level_dim_def)

lemma smoother_call_returns:
  assumes "in_block m u (n * n)" "in_block m f (n * n)" "n * n < 2 ^ 31"
  shows "\<exists>m'. smoother_call S u f n h m = Some m' \<and> writes_within u (n * n) m m'"
  using smoother_call_frame [OF assms, of S h] frame_writes_within by blast

lemma poisson_residual_returns:
  assumes "in_block m r (n * n)" "in_block m u (n * n)" "in_block m f (n * n)" "n * n < 2 ^ 31"
  shows "\<exists>m'. poisson_residual r u f n h m = Some m' \<and> writes_within r (n * n) m m'"
  using poisson_residual_frame [OF assms, of h] frame_writes_within by blast

lemma in_block_sub: "in_block m p c \<Longrightarrow> 0 \<le> a \<Longrightarrow> a + c' \<le> c \<Longrightarrow> in_block m (ptr_add p a) c'"
  by (auto simp: in_block_def ptr_add_def)

lemma in_block_less: "in_block m p c \<Longrightarrow> c' \<le> c \<Longrightarrow> in_block m p c'"
  by (auto simp: in_block_def)

lemma base_case_returns:
  assumes "in_block m u 9" "in_block m f 9"
  shows "\<exists>m'. base_case u f h m = Some m' \<and> same_shape m m'"
proof -
  have "valid m u 4" "valid m f 4"
    using assms by (auto intro: valid_in_block)
  then show ?thesis by (simp add: base_case_def ld_def st_def)
qed

lemma level_cells_1: "level_cells 1 = 9"
  by (simp add: level_cells_def level_dim_def)

lemma upto_rev_step: "1 \<le> l \<Longrightarrow> rev [1..l] = l # rev [1..l - 1]"
  by (simp add: upto_rec2)

lemma upto_rev_step2: "2 \<le> l \<Longrightarrow> rev [2..l] = l # rev [2..l - 1]"
  by (simp add: upto_rec2)

lemma upto_snoc2: "2 \<le> l \<Longrightarrow> [2..l] = [2..l - 1] @ [l]"
  by (simp add: upto_rec2)

lemma v_cycle_run:
  assumes "1 \<le> l" "l \<le> 15" "ready l u f r v w (mem s)"
  shows "\<exists>s' H. multigrid_v_cycle G l S u f r v w h s = Some s' \<and>
           same_shape (mem s) (mem s') \<and> history s' = history s @ H \<and>
           recursions H = map (carved v w) (rev [1..l - 1]) \<and>
           smoother_dims H = map level_dim (rev [2..l]) @ map level_dim [2..l] \<and>
           (cleared l u r v w (mem s) \<longrightarrow>
              snapshots H = map (\<lambda>k. replicate (nat (level_cells k)) 0) (rev [1..l - 1]))"
  using assms
proof (induction l arbitrary: u f h s rule: int_ge_induct)
  case base
  have "in_block (mem s) u 9" "in_block (mem s) f 9"
    using base by (simp_all add: ready_def level_cells_1)
  then obtain m' where m': "base_case u f h (mem s) = Some m'" "same_shape (mem s) m'"
    using base_case_returns by blast
  have "multigrid_v_cycle G 1 S u f r v w h s = Some (s\<lparr>mem := m'\<rparr>)"
    by (simp add: v_cycle_base inline_def m'(1))
  then show ?case using m'(2) by simp
next
  case (step i)
  define l where "l = i + 1"
  have l: "1 < l" "1 \<le> l" "l - 1 = i" "1 \<le> l - 1" using step.hyps by (simp_all add: l_def)
  have lb: "l \<le> 15" "l \<le> 16" "i \<le> 15" using step.prems(1) by (simp_all add: l_def)
  define n where "n = level_dim l"
  define c where "c = level_cells (l - 1)"
  define el where "el = ptr_add v c"
  define rl where "rl = ptr_add w c"
  have nn: "n * n = level_cells l" by (simp add: n_def level_cells_def)
  have cc: "level_dim (l - 1) * level_dim (l - 1) = c" by (simp add: c_def level_cells_def)
  have c0: "0 \<le> c" unfolding c_def by (rule level_cells_pos)
  have cl: "c \<le> level_cells l" unfolding c_def by (rule level_cells_mono_step [OF l(2)])
  have c2: "2 * level_cells (l - 1 - 1) \<le> c" unfolding c_def by (rule level_cells_double [OF l(4)])
  have small: "n * n < 2 ^ 31" unfolding nn by (rule level_cells_small [OF lb(1)])
  let ?m = "mem s"
  from step.prems have rdy: "in_block ?m u (n * n)" "in_block ?m f (n * n)" "in_block ?m r (n * n)"
      "in_block ?m v (2 * c)" "in_block ?m w (2 * c)"
    by (simp_all add: ready_def nn c_def l_def)
  \<comment> \<open>pre-smoothing\<close>
  obtain m1 where m1: "smoother_call S u f n h ?m = Some m1" "writes_within u (n * n) ?m m1"
    using smoother_call_returns [OF rdy(1,2) small] by blast
  define e1 where "e1 = Call_smoother u f n h"
  define s1 where "s1 = \<lparr>mem = m1, history = history s @ [e1]\<rparr>"
  have r1: "call e1 (smoother_call S u f n h) s = Some s1"
    unfolding s1_def using m1(1) by (rule call_Some)
  note sh1 = writes_within_shape [OF m1(2)]
  \<comment> \<open>residual\<close>
  have "in_block m1 r (n * n)" "in_block m1 u (n * n)" "in_block m1 f (n * n)"
    using rdy sh1 by (auto intro: same_shape_in_block)
  then obtain m2 where m2: "poisson_residual r u f n h m1 = Some m2" "writes_within r (n * n) m1 m2"
    using poisson_residual_returns small by blast
  define e2 where "e2 = Call_poisson_residual r u f n h"
  define s2 where "s2 = \<lparr>mem = m2, history = history s1 @ [e2]\<rparr>"
  have r2: "call e2 (poisson_residual r u f n h) s1 = Some s2"
    unfolding s2_def by (rule call_Some) (simp add: s1_def m2(1))
  have sh2: "same_shape ?m m2"
    using sh1 writes_within_shape [OF m2(2)] by (rule same_shape_trans)
  \<comment> \<open>restriction\<close>
  have rl_ok: "in_block ?m rl c" and el_ok: "in_block ?m el c"
    unfolding rl_def el_def using rdy(4,5) c0 by (auto intro: in_block_sub)
  have "in_block m2 r (n * n)" "in_block m2 rl (level_dim (l - 1) * level_dim (l - 1))"
      "0 \<le> level_dim (l - 1) * level_dim (l - 1)"
    unfolding cc using rdy(3) rl_ok sh2 c0 by (auto intro: same_shape_in_block)
  then have "\<exists>m'. grid_transfer (restriction G) rl (level_dim (l - 1)) (level_dim (l - 1)) r n n 0 1 m2
                  = Some m' \<and>
                writes_within rl (level_dim (l - 1) * level_dim (l - 1)) m2 m'"
    by (rule grid_transfer_returns)
  then obtain m3 where m3:
      "grid_restrict G rl (level_dim (l - 1)) (level_dim (l - 1)) r n n 0 1 m2 = Some m3"
      "writes_within rl c m2 m3"
    unfolding grid_restrict_def cc by blast
  define e3 where "e3 = Call_grid_restrict rl (level_dim (l - 1)) (level_dim (l - 1)) r n n 0 1"
  define s3 where "s3 = \<lparr>mem = m3, history = history s2 @ [e3]\<rparr>"
  have r3: "call e3 (grid_restrict G rl (level_dim (l - 1)) (level_dim (l - 1)) r n n 0 1) s2 = Some s3"
    unfolding s3_def by (rule call_Some) (simp add: s2_def m3(1))
  have ms3: "mem s3 = m3" by (simp add: s3_def)
  have sh3: "same_shape ?m m3"
    using sh2 writes_within_shape [OF m3(2)] by (rule same_shape_trans)
  \<comment> \<open>the recursive call\<close>
  define e4 where "e4 = Call_multigrid_v_cycle (l - 1) el rl r v w (2 * h) (peek m3 el c)"
  define s3' where "s3' = record_call e4 s3"
  have s3'm: "mem s3' = m3" and s3'h: "history s3' = history s @ [e1, e2, e3, e4]"
    by (simp_all add: s3'_def record_call_def s3_def s2_def s1_def)
  have "in_block ?m r c" using rdy(3) cl nn by (auto intro: in_block_less)
  moreover have "in_block ?m v (2 * level_cells (l - 1 - 1))" "in_block ?m w (2 * level_cells (l - 1 - 1))"
    using rdy(4,5) c2 c0 by (auto intro: in_block_less)
  ultimately have "ready (l - 1) el rl r v w ?m"
    using el_ok rl_ok by (simp add: ready_def c_def)
  then have rdy': "ready i el rl r v w (mem s3')"
    using sh3 by (auto simp: ready_def s3'm l(3) [symmetric] intro: same_shape_in_block)
  from step.IH [OF lb(3) rdy', of "2 * h"]
  obtain s4 H' where s4: "multigrid_v_cycle G i S el rl r v w (2 * h) s3' = Some s4"
      "same_shape (mem s3') (mem s4)" "history s4 = history s3' @ H'"
      "recursions H' = map (carved v w) (rev [1..i - 1])"
      "smoother_dims H' = map level_dim (rev [2..i]) @ map level_dim [2..i]"
      "cleared i el r v w (mem s3') \<longrightarrow>
              snapshots H' = map (\<lambda>k. replicate (nat (level_cells k)) 0) (rev [1..i - 1])"
    by blast
  have sh4: "same_shape ?m (mem s4)"
    using sh3 s4(2) by (auto simp: s3'm intro: same_shape_trans)
  \<comment> \<open>prolongation\<close>
  have "in_block (mem s4) el (level_dim (l - 1) * level_dim (l - 1))" "in_block (mem s4) u (n * n)"
      "0 \<le> n * n"
    unfolding cc using el_ok rdy(1) sh4 by (auto intro: same_shape_in_block)
  then have "\<exists>m'. grid_transfer (interpolation G) u n n el (level_dim (l - 1)) (level_dim (l - 1)) 1 1
                  (mem s4) = Some m' \<and> writes_within u (n * n) (mem s4) m'"
    by (rule grid_transfer_returns)
  then obtain m5 where m5:
      "grid_prolongate G u n n el (level_dim (l - 1)) (level_dim (l - 1)) 1 1 (mem s4) = Some m5"
      "writes_within u (n * n) (mem s4) m5"
    unfolding grid_prolongate_def by blast
  define e5 where "e5 = Call_grid_prolongate u n n el (level_dim (l - 1)) (level_dim (l - 1)) 1 1"
  define s5 where "s5 = \<lparr>mem = m5, history = history s4 @ [e5]\<rparr>"
  have r5: "call e5 (grid_prolongate G u n n el (level_dim (l - 1)) (level_dim (l - 1)) 1 1) s4 = Some s5"
    unfolding s5_def using m5(1) by (rule call_Some)
  have sh5: "same_shape ?m m5"
    using sh4 writes_within_shape [OF m5(2)] by (rule same_shape_trans)
  \<comment> \<open>post-smoothing\<close>
  have "in_block m5 u (n * n)" "in_block m5 f (n * n)"
    using rdy(1,2) sh5 by (auto intro: same_shape_in_block)
  then obtain m6 where m6: "smoother_call S u f n h m5 = Some m6" "writes_within u (n * n) m5 m6"
    using smoother_call_returns small by blast
  define s6 where "s6 = \<lparr>mem = m6, history = history s5 @ [e1]\<rparr>"
  have r6: "call e1 (smoother_call S u f n h) s5 = Some s6"
    unfolding s6_def by (rule call_Some) (simp add: s5_def m6(1))
  have sh6: "same_shape ?m (mem s6)"
    using sh5 writes_within_shape [OF m6(2)] by (auto simp: s6_def intro: same_shape_trans)
  \<comment> \<open>the whole call\<close>
  define H where "H = [e1, e2, e3, e4] @ H' @ [e5, e1]"
  have run: "multigrid_v_cycle G l S u f r v w h s = Some s6"
    unfolding v_cycle_rec [OF l(1) lb(2)]
    using r1 r2 r3 s4(1) r5 r6 ms3
    by (simp add: n_def c_def el_def rl_def e1_def e2_def e3_def e4_def e5_def s3'_def l(3))
  have hist: "history s6 = history s @ H"
    by (simp add: H_def s6_def s5_def s4(3) s3'h)
  have rec: "recursions H = map (carved v w) (rev [1..l - 1])"
    using s4(4) l upto_rev_step [of "l - 1"]
    by (simp add: H_def e1_def e2_def e3_def e4_def e5_def carved_def el_def rl_def c_def l(3))
  have dims: "smoother_dims H = map level_dim (rev [2..l]) @ map level_dim [2..l]"
  proof -
    have l2: "2 \<le> l" using l(1) by simp
    show ?thesis
      using s4(5) upto_rev_step2 [OF l2] upto_snoc2 [OF l2]
      by (simp add: H_def e1_def e2_def e3_def e4_def e5_def n_def l(3))
  qed
  have snap: "snapshots H = map (\<lambda>k. replicate (nat (level_cells k)) 0) (rev [1..l - 1])"
    if cl: "cleared l u r v w ?m"
  proof -
    from cl have z: "zero_on ?m (fst v) (snd v) (snd v + 2 * c)"
      and ne: "fst r \<noteq> fst v" "fst w \<noteq> fst v" "fst u \<noteq> fst v \<or> snd v + 2 * c \<le> snd u"
      by (simp_all add: cleared_def c_def)
    have z1: "zero_on m1 (fst v) (snd v) (snd v + 2 * c)"
      using z m1(2) by (rule zero_on_writes_within) (use ne(3) in auto)
    have z2: "zero_on m2 (fst v) (snd v) (snd v + 2 * c)"
      using z1 m2(2) by (rule zero_on_writes_within) (use ne(1) in auto)
    have z3: "zero_on m3 (fst v) (snd v) (snd v + 2 * c)"
      using z2 m3(2) by (rule zero_on_writes_within) (use ne(2) in \<open>auto simp: rl_def ptr_add_def\<close>)
    have "zero_on m3 (fst el) (snd el) (snd el + c)"
      using z3 c0 by (auto simp: el_def ptr_add_def intro: zero_on_sub)
    moreover have "in_block m3 el c" using el_ok sh3 by (rule same_shape_in_block [rotated])
    ultimately have pk: "peek m3 el c = replicate (nat c) 0" by (rule peek_zero [rotated])
    have "zero_on m3 (fst v) (snd v) (snd v + 2 * level_cells (i - 1))"
      using z3 c2 c0 by (auto simp: l(3) intro: zero_on_sub)
    moreover have "fst el \<noteq> fst v \<or> snd v + 2 * level_cells (i - 1) \<le> snd el"
      using c2 by (simp add: el_def ptr_add_def l(3))
    ultimately have "cleared i el r v w (mem s3')"
      using ne by (simp add: cleared_def s3'm)
    then have "snapshots H' = map (\<lambda>k. replicate (nat (level_cells k)) 0) (rev [1..i - 1])"
      using s4(6) by simp
    then show ?thesis
      using l upto_rev_step [of "l - 1"] pk
      by (simp add: H_def e1_def e2_def e3_def e4_def e5_def c_def l(3))
  qed
  show ?case
    using run sh6 hist rec dims snap unfolding l_def by blast
qed

section \<open>The steps of a V-cycle (C1) and its base case (C2)\<close>




lemma level_values:
  "level_dim 1 = 3" "level_dim 2 = 5" "level_dim 3 = 9"
  "level_cells 0 = 4" "level_cells 1 = 9" "level_cells 2 = 25" "level_cells 3 = 81"
  by (simp_all add: level_dim_def level_cells_def)




text \<open>
  Claim C2. At level 1 (\<open>n = 3\<close>), with \<open>u[4]\<close> and \<open>f[4]\<close> inside their buffers, the
  call returns without any call of the smoother, the residual, a grid transfer or itself
  (the history is unchanged); it sets the interior unknown \<open>u[1,1]\<close> to
  \<open>- 0.5 \<cdot> f[1,1] \<cdot> h\<^sup>2\<close> and changes no other cell of the memory.
\<close>

theorem base_level_solve:
  assumes "valid (mem s) u 4" "valid (mem s) f 4"
  shows "\<exists>s'. multigrid_v_cycle G 1 S u f r v w h s = Some s' \<and>
           history s' = history s \<and>
           entry (mem s') u 3 1 1 = - 0.5 * entry (mem s) f 3 1 1 * h\<^sup>2 \<and>
           (\<forall>b k. \<not> (b = fst u \<and> int k = snd u + 4) \<longrightarrow> mem s' b ! k = mem s b ! k) \<and>
           (\<forall>b. length (mem s' b) = length (mem s b))"
proof -
  let ?x = "- 0.5 * cell (mem s) f 4 * h * h"
  have run: "multigrid_v_cycle G 1 S u f r v w h s = Some (s\<lparr>mem := upd (mem s) u 4 ?x\<rparr>)"
    using assms by (simp add: v_cycle_base inline_def base_case_def ld_def st_def)
  have nn: "0 \<le> snd u + 4" using assms(1) by (simp add: valid_def)
  have "entry (upd (mem s) u 4 ?x) u 3 1 1 = - 0.5 * entry (mem s) f 3 1 1 * h\<^sup>2"
    using assms(1) by (simp add: entry_def idx_def cell_upd_same power2_eq_square)
  moreover have "\<forall>b k. \<not> (b = fst u \<and> int k = snd u + 4) \<longrightarrow> upd (mem s) u 4 ?x b ! k = mem s b ! k"
    using nn by (simp add: upd_frame)
  moreover have "\<forall>b. length (upd (mem s) u 4 ?x b) = length (mem s b)"
    by (simp add: upd_def)
  ultimately show ?thesis using run by simp
qed

theorem base_level_solve_witness:
  "valid mem3s (PU, 0) 4 \<and> valid mem3s (PF, 0) 4 \<and>
   (\<exists>s'. multigrid_v_cycle sample_ops 1 GaussSeidel (PU, 0) (PF, 0) (MR, 0) (MV, 0) (MW, 0) (1 / 2)
            \<lparr>mem = mem3s, history = []\<rparr> = Some s' \<and>
      history s' = [] \<and> entry (mem s') (PU, 0) 3 1 1 = - (1 / 2) \<and> mem s' PU ! 3 = 0)"
proof -
  let ?s = "\<lparr>mem = mem3s, history = []\<rparr>"
  have a: "valid (mem ?s) (PU, 0) 4" and b: "valid (mem ?s) (PF, 0) 4"
    by (simp_all add: valid_def mem3s_def)
  from base_level_solve [OF a b, of sample_ops GaussSeidel "(MR, 0)" "(MV, 0)" "(MW, 0)" "1 / 2"]
  obtain s' where s': "multigrid_v_cycle sample_ops 1 GaussSeidel (PU, 0) (PF, 0) (MR, 0) (MV, 0)
        (MW, 0) (1 / 2) ?s = Some s'"
    "history s' = history ?s"
    "entry (mem s') (PU, 0) 3 1 1 = - 0.5 * entry (mem ?s) (PF, 0) 3 1 1 * (1 / 2)\<^sup>2"
    "\<forall>b k. \<not> (b = fst (PU, 0 :: int) \<and> int k = snd (PU, 0 :: int) + 4) \<longrightarrow> mem s' b ! k = mem ?s b ! k"
    by (elim exE conjE) (rule that)
  have "entry (mem s') (PU, 0) 3 1 1 = - (1 / 2)"
    using s'(3) by (simp add: entry_def cell_def idx_def mem3s_def power2_eq_square)
  moreover have "mem s' PU ! 3 = 0"
    using s'(4) [rule_format, of PU 3] by (simp add: mem3s_def)
  ultimately show ?thesis using a b s'(1,2) by simp
qed

section \<open>The sum of the level sizes\<close>

lemma level_sum_closed:
  "3 * (\<Sum>i = 0..n. (2 ^ i + 1)\<^sup>2) + 7 = 4 ^ (n + 1) + 6 * 2 ^ (n + 1) + 3 * (n + 1 :: nat)"
proof (induction n)
  case 0
  show ?case by (simp add: power2_eq_square)
next
  case (Suc n)
  have "(4::nat) ^ (n + 1) = (2 ^ (n + 1))\<^sup>2"
    by (metis mult_2 numeral_Bit0 power2_eq_square power_mult_distrib)
  then show ?case
    using Suc by (simp add: power2_eq_square algebra_simps)
qed

lemma level_sum_eval:
  "(\<Sum>i = 0..n. (2 ^ i + 1)\<^sup>2) = (4 ^ (n + 1) + 6 * 2 ^ (n + 1) + 3 * (n + 1) - 7) div (3::nat)"
proof -
  define S where "S = (\<Sum>i = 0..n. (2 ^ i + 1)\<^sup>2 :: nat)"
  define c where "c = 4 ^ (n + 1) + 6 * 2 ^ (n + 1) + 3 * (n + 1 :: nat)"
  have "3 * S + 7 = c" unfolding S_def c_def by (rule level_sum_closed)
  then have "S = (c - 7) div 3" by arith
  then show ?thesis unfolding S_def c_def .
qed

lemma multigrid_size_small:
  assumes "0 \<le> L" "L \<le> 15"
  shows "multigrid_size L = (\<Sum>i = 0..nat L. (2 ^ i + 1)\<^sup>2)"
proof -
  have "L \<in> {0..15}" using assms by simp
  also have "{0..15::int} = set [0..15]" by simp
  finally have "L \<in> set [0..15]" .
  then have "L = 0 \<or> L = 1 \<or> L = 2 \<or> L = 3 \<or> L = 4 \<or> L = 5 \<or> L = 6 \<or> L = 7 \<or> L = 8 \<or> L = 9 \<or>
     L = 10 \<or> L = 11 \<or> L = 12 \<or> L = 13 \<or> L = 14 \<or> L = 15"
    by (simp add: upto_rec1 [of 0] upto.simps)
  then show ?thesis
    unfolding level_sum_eval
    by (elim disjE) (simp_all add: multigrid_size_def multigrid_size_loop.simps level_n_def)
qed

lemma level_cells_le_sum: "0 \<le> L \<Longrightarrow> level_cells L \<le> int (\<Sum>i = 0..nat L. (2 ^ i + 1)\<^sup>2)"
proof -
  assume "0 \<le> L"
  have "(2 ^ nat L + 1)\<^sup>2 \<le> (\<Sum>i = 0..nat L. (2 ^ i + 1)\<^sup>2 :: nat)"
    by (rule member_le_sum [of "nat L" "{0..nat L}" "\<lambda>i. (2 ^ i + 1)\<^sup>2"]) auto
  then have "int ((2 ^ nat L + 1)\<^sup>2) \<le> int (\<Sum>i = 0..nat L. (2 ^ i + 1)\<^sup>2)"
    by (rule iffD2 [OF of_nat_le_iff])
  moreover have "level_cells L = int ((2 ^ nat L + 1)\<^sup>2)"
    by (simp add: level_cells_def level_dim_def power2_eq_square algebra_simps)
  ultimately show ?thesis by (simp only:)
qed

section \<open>Recursion depth (C9) and carved fields (C3)\<close>

text \<open>
  Claim C9, amended. For every level \<open>1 \<le> l \<le> 15\<close>, a call on fields of \<open>n(l)\<^sup>2\<close>
  elements and arenas reaching up to twice \<open>n(l - 1)\<^sup>2\<close> returns. The recursion of the
  model is well-founded on \<open>l\<close> (its termination is proved with the measure \<open>l\<close>). The
  call makes exactly \<open>l - 1\<close> recursive calls, at the levels \<open>l - 1, l - 2, \<dots>, 1\<close> in
  this order, and it calls the smoother at the sizes \<open>n(l), \<dots>, n(2)\<close> on the way down
  and \<open>n(2), \<dots>, n(l)\<close> on the way up: each level is visited once in each direction. At
  level 16 the call is undefined before its first recursive call.
\<close>

theorem v_cycle_terminates:
  assumes "1 \<le> l" "l \<le> 15" "ready l u f r v w (mem s)"
  shows "\<exists>s' H. multigrid_v_cycle G l S u f r v w h s = Some s' \<and>
           history s' = history s @ H \<and>
           map fst (recursions H) = rev [1..l - 1] \<and>
           length (recursions H) = nat (l - 1) \<and>
           smoother_dims H = map level_dim (rev [2..l]) @ map level_dim [2..l]"
proof -
  obtain s' H where r: "multigrid_v_cycle G l S u f r v w h s = Some s'"
      "history s' = history s @ H" "recursions H = map (carved v w) (rev [1..l - 1])"
      "smoother_dims H = map level_dim (rev [2..l]) @ map level_dim [2..l]"
    using v_cycle_run [OF assms, of G S h] by blast
  have "map fst (recursions H) = rev [1..l - 1]"
    unfolding r(3) by (simp add: carved_def comp_def rev_map)
  moreover have "length (recursions H) = nat (l - 1)"
    unfolding r(3) by simp
  ultimately show ?thesis using r(1,2,4) by blast
qed

theorem v_cycle_terminates_witness:
  "(1 :: int) \<le> 3 \<and> (3 :: int) \<le> 15 \<and> ready 3 (PU, 0) (PF, 0) (MR, 0) (MV, 0) (MW, 0) mem9 \<and>
   (\<exists>s' H. multigrid_v_cycle sample_ops 3 GaussSeidelRedBlack (PU, 0) (PF, 0) (MR, 0) (MV, 0) (MW, 0)
              1 \<lparr>mem = mem9, history = []\<rparr> = Some s' \<and>
      history s' = H \<and> map fst (recursions H) = [2, 1] \<and> length (recursions H) = 2 \<and>
      smoother_dims H = [9, 5, 5, 9])"
proof -
  let ?s = "\<lparr>mem = mem9, history = []\<rparr>"
  have one: "(1 :: int) \<le> 3" "(3 :: int) \<le> 15" by simp_all
  have rdy: "ready 3 (PU, 0) (PF, 0) (MR, 0) (MV, 0) (MW, 0) (mem ?s)"
    by (simp add: ready_def in_block_def mem9_def level_values)
  have up: "[1..(2::int)] = [1, 2]" "[2..(3::int)] = [2, 3]" by (simp_all add: upto.simps)
  from v_cycle_terminates [OF one rdy, of sample_ops GaussSeidelRedBlack 1]
  show ?thesis using rdy by (simp add: up level_values)
qed

theorem v_cycle_no_return_at_16:
  "ready 16 (PU, 0) (PF, 0) (MR, 0) (MV, 0) (MW, 0) mem65537 \<and>
   at_index 2 32768 65537 = None \<and>
   multigrid_v_cycle sample_ops 16 GaussSeidelRedBlack (PU, 0) (PF, 0) (MR, 0) (MV, 0) (MW, 0) 1
     \<lparr>mem = mem65537, history = []\<rparr> = None"
  by (simp add: mem65537_ready v_cycle_16 at_index_def c_int_def)

lemma level_cells_mono:
  assumes "a \<le> b" "0 \<le> a"
  shows "level_cells a \<le> level_cells b"
  using assms
proof (induction b rule: int_ge_induct)
  case base
  show ?case by simp
next
  case (step i)
  have "level_cells i \<le> level_cells (i + 1)"
    using level_cells_mono_step [of "i + 1"] step by simp
  then show ?case using step by simp
qed

lemma carved_blocks_apart:
  assumes "0 \<le> a" "a < b"
  shows "2 * level_cells a \<le> level_cells b"
proof -
  have "level_cells a \<le> level_cells (b - 1)" using assms by (intro level_cells_mono) auto
  moreover have "2 * level_cells (b - 1) \<le> level_cells b"
    using assms by (intro level_cells_double) auto
  ultimately show ?thesis by simp
qed

lemma poke_inside:
  assumes "in_block m p (int (length xs))" "snd p \<le> int k" "int k < snd p + int (length xs)"
  shows "poke m p xs (fst p) ! k = xs ! (k - nat (snd p))"
proof -
  have "nat (snd p) \<le> k" "k - nat (snd p) < length xs" "nat (snd p) \<le> length (m (fst p))"
    using assms by (auto simp: in_block_def)
  then show ?thesis by (simp add: poke_def nth_append)
qed

lemma memset0_returns:
  assumes "in_block m p (int cnt)"
  shows "\<exists>m'. memset0 p cnt m = Some m' \<and> writes_within p (int cnt) m m' \<and>
           zero_on m' (fst p) (snd p) (snd p + int cnt)"
proof -
  let ?xs = "replicate cnt (0 :: real)"
  have b: "in_block m p (int (length ?xs))" using assms by simp
  have "zero_on (poke m p ?xs) (fst p) (snd p) (snd p + int cnt)"
    unfolding zero_on_def
  proof (intro allI impI)
    fix k assume k: "snd p \<le> int k \<and> int k < snd p + int cnt"
    then have "poke m p ?xs (fst p) ! k = ?xs ! (k - nat (snd p))"
      using b by (intro poke_inside) auto
    moreover have "k - nat (snd p) < cnt" using k assms by (auto simp: in_block_def)
    ultimately show "poke m p ?xs (fst p) ! k = 0" by simp
  qed
  then show ?thesis
    using st_block_writes_within [OF b] by (simp add: memset0_def)
qed

lemma inline_Some: "k (mem s) = Some m' \<Longrightarrow> inline k s = Some (s\<lparr>mem := m'\<rparr>)"
  by (simp add: inline_def)

lemma Multigrid_call_run:
  assumes "1 \<le> mg_l mg" "mg_l mg \<le> 15"
    and "in_block (mem s) (PU, 0) (level_cells (mg_l mg))"
    and "in_block (mem s) (PF, 0) (level_cells (mg_l mg))"
    and "in_block (mem s) (MR, 0) (level_cells (mg_l mg))"
    and "in_block (mem s) (MV, 0) (int (mg_num mg))"
    and "in_block (mem s) (MW, 0) (int (mg_num mg))"
    and "2 * level_cells (mg_l mg - 1) \<le> int (mg_num mg)"
  shows "\<exists>s' H. Multigrid_call G mg h s = Some s' \<and> history s' = history s @ H \<and>
           recursions H =
             map (\<lambda>k. (k, (MV, level_cells k), (MW, level_cells k))) (rev [1..mg_l mg - 1]) \<and>
           snapshots H = map (\<lambda>k. replicate (nat (level_cells k)) 0) (rev [1..mg_l mg - 1]) \<and>
           (\<forall>(a, ea, ra) \<in> set (recursions H). \<forall>(b, eb, rb) \<in> set (recursions H).
              a < b \<longrightarrow> fst ea = fst eb \<and> snd ea + level_cells a \<le> snd eb \<and>
                        fst ra = fst rb \<and> snd ra + level_cells a \<le> snd rb \<and> fst ea \<noteq> fst ra)"
proof -
  let ?L = "mg_l mg" and ?num = "mg_num mg"
  obtain m1 where m1: "memset0 (MV, 0) ?num (mem s) = Some m1"
      "writes_within (MV, 0) (int ?num) (mem s) m1" "zero_on m1 MV 0 (int ?num)"
    using memset0_returns [OF assms(6)] by auto
  obtain m2 where m2: "memset0 (MW, 0) ?num m1 = Some m2"
      "writes_within (MW, 0) (int ?num) m1 m2"
    using memset0_returns [OF writes_within_in_block [OF m1(2) assms(7)]] by auto
  define s2 where "s2 = s\<lparr>mem := m2\<rparr>"
  have sh: "same_shape (mem s) m2"
    using writes_within_shape [OF m1(2)] writes_within_shape [OF m2(2)] by (rule same_shape_trans)
  have z2: "zero_on m2 MV 0 (int ?num)"
    using m1(3) m2(2) by (rule zero_on_writes_within) simp
  have c0: "0 \<le> level_cells (?L - 1)" by (rule level_cells_pos)
  have rdy: "ready ?L (PU, 0) (PF, 0) (MR, 0) (MV, 0) (MW, 0) (mem s2)"
    using assms(3-8) sh c0
    by (auto simp: ready_def s2_def intro!: same_shape_in_block [OF sh] intro: in_block_less)
  have clr: "cleared ?L (PU, 0) (MR, 0) (MV, 0) (MW, 0) (mem s2)"
    using z2 assms(8) by (auto simp: cleared_def s2_def intro: zero_on_sub)
  obtain s' H where r: "multigrid_v_cycle G ?L (mg_smoother mg) (PU, 0) (PF, 0) (MR, 0) (MV, 0) (MW, 0)
        h s2 = Some s'"
      "history s' = history s2 @ H"
      "recursions H = map (carved (MV, 0) (MW, 0)) (rev [1..?L - 1])"
      "snapshots H = map (\<lambda>k. replicate (nat (level_cells k)) 0) (rev [1..?L - 1])"
    using v_cycle_run [OF assms(1,2) rdy, of G "mg_smoother mg" h] clr by blast
  have "Multigrid_call G mg h s = Some s'"
    using m1(1) m2(1) r(1) by (simp add: Multigrid_call_def inline_def s2_def)
  moreover have "history s' = history s @ H" using r(2) by (simp add: s2_def)
  moreover have "recursions H =
             map (\<lambda>k. (k, (MV, level_cells k), (MW, level_cells k))) (rev [1..?L - 1])"
    unfolding r(3) by (simp add: carved_def ptr_add_def)
  moreover have "\<forall>(a, ea, ra) \<in> set (recursions H). \<forall>(b, eb, rb) \<in> set (recursions H).
              a < b \<longrightarrow> fst ea = fst eb \<and> snd ea + level_cells a \<le> snd eb \<and>
                        fst ra = fst rb \<and> snd ra + level_cells a \<le> snd rb \<and> fst ea \<noteq> fst ra"
    unfolding r(3) using carved_blocks_apart by (auto simp: carved_def ptr_add_def)
  ultimately show ?thesis using r(4) by blast
qed

lemma levels_1_to_15:
  assumes "1 \<le> L" "L \<le> 15"
  shows "L = 1 \<or> L = 2 \<or> L = 3 \<or> L = 4 \<or> L = 5 \<or> L = 6 \<or> L = 7 \<or> L = 8 \<or> L = 9 \<or>
     L = 10 \<or> L = 11 \<or> L = 12 \<or> L = 13 \<or> L = 14 \<or> (L :: int) = 15"
  using assms by arith

lemma scratch_size:
  assumes "1 \<le> L" "L \<le> 15"
  shows "unat ((scast (level_n L) :: 64 word) * scast (level_n L)) = nat (level_cells L)"
  using levels_1_to_15 [OF assms]
  by (elim disjE) (simp_all add: level_n_def level_cells_def level_dim_def)

lemma Multigrid_new_fields:
  assumes "Multigrid_new S L junk m0 = (mg, m)"
  shows "mg_l mg = L" "mg_num mg = multigrid_size L"
    "length (m MV) = multigrid_size L" "length (m MW) = multigrid_size L"
    "length (m MR) = unat ((scast (level_n L) :: 64 word) * scast (level_n L))"
  using assms by (auto simp: Multigrid_new_def Let_def malloc_def)

lemma arena_reaches:
  assumes "1 \<le> L" "L \<le> 15"
  shows "2 * level_cells (L - 1) \<le> int (multigrid_size L)"
proof -
  have "2 * level_cells (L - 1) \<le> level_cells L" using assms(1) by (rule level_cells_double)
  also have "\<dots> \<le> int (\<Sum>i = 0..nat L. (2 ^ i + 1)\<^sup>2)"
    using assms(1) by (intro level_cells_le_sum) simp
  also have "\<dots> = int (multigrid_size L)"
    using assms by (simp add: multigrid_size_small)
  finally show ?thesis .
qed

text \<open>
  Claim C3, amended. Let a driver be constructed for a finest level \<open>1 \<le> L \<le> 15\<close>
  (its constructor allocates the arenas \<open>v\<close> and \<open>w\<close> with \<open>multigrid_size(L)\<close> elements
  each and the scratch \<open>r\<close>), and let the problem's \<open>u\<close> and \<open>f\<close> have \<open>n(L)\<^sup>2\<close>
  elements. Then \<open>Multigrid::operator()\<close>, on any memory with the buffers the constructor
  left, returns; its recursive calls are those at the levels \<open>k = L - 1, \<dots>, 1\<close>, each on
  the correction field of \<open>n(k)\<^sup>2\<close> elements at offset \<open>n(k)\<^sup>2\<close> of \<open>v\<close> and the
  restricted residual at the same offset of \<open>w\<close>; at the moment of each of these calls its
  correction field is zero everywhere; and the carved fields of two different levels do
  not overlap: the one of the coarser level ends before the one of the finer level begins.
  At \<open>L = 16\<close> the arenas the constructor allocates end before the carved fields of
  level 15 do, and the call is undefined.
\<close>

theorem correction_fields_start_zero:
  assumes "1 \<le> L" "L \<le> 15"
    and "Multigrid_new S L junk m0 = (mg, m)"
    and "same_shape m (mem s)"
    and "in_block (mem s) (PU, 0) (level_cells L)"
    and "in_block (mem s) (PF, 0) (level_cells L)"
  shows "\<exists>s' H. Multigrid_call G mg h s = Some s' \<and> history s' = history s @ H \<and>
           recursions H =
             map (\<lambda>k. (k, (MV, level_cells k), (MW, level_cells k))) (rev [1..L - 1]) \<and>
           snapshots H = map (\<lambda>k. replicate (nat (level_cells k)) 0) (rev [1..L - 1]) \<and>
           (\<forall>(a, ea, ra) \<in> set (recursions H). \<forall>(b, eb, rb) \<in> set (recursions H).
              a < b \<longrightarrow> fst ea = fst eb \<and> snd ea + level_cells a \<le> snd eb \<and>
                        fst ra = fst rb \<and> snd ra + level_cells a \<le> snd rb \<and> fst ea \<noteq> fst ra)"
proof -
  note f = Multigrid_new_fields [OF assms(3)]
  have len: "length (mem s MV) = multigrid_size L" "length (mem s MW) = multigrid_size L"
      "length (mem s MR) = nat (level_cells L)"
    using assms(4) f(3,4,5) scratch_size [OF assms(1,2)] by (simp_all add: same_shape_def)
  have l: "1 \<le> mg_l mg" "mg_l mg \<le> 15" using assms(1,2) f(1) by simp_all
  have u: "in_block (mem s) (PU, 0) (level_cells (mg_l mg))"
    and pf: "in_block (mem s) (PF, 0) (level_cells (mg_l mg))"
    using assms(5,6) f(1) by simp_all
  have r: "in_block (mem s) (MR, 0) (level_cells (mg_l mg))"
    using len(3) level_cells_pos [of L] by (simp add: in_block_def f(1))
  have v: "in_block (mem s) (MV, 0) (int (mg_num mg))"
    and w: "in_block (mem s) (MW, 0) (int (mg_num mg))"
    using len(1,2) by (simp_all add: in_block_def f(2))
  have a: "2 * level_cells (mg_l mg - 1) \<le> int (mg_num mg)"
    unfolding f(1,2) using assms(1,2) by (rule arena_reaches)
  show ?thesis
    using Multigrid_call_run [OF l u pf r v w a, of G h] unfolding f(1) .
qed

lemma driver3_values:
  "fst driver3 = \<lparr>mg_l = 3, mg_num = 119, mg_smoother = GaussSeidel\<rparr>"
  "snd driver3 MV = replicate 119 5" "snd driver3 MW = replicate 119 5" "snd driver3 MR = replicate 81 5"
  "snd driver3 PU = replicate 81 0" "snd driver3 PF = replicate 81 1"
  by (simp_all add: driver3_def Multigrid_new_def malloc_def multigrid_size_def
        multigrid_size_loop.simps level_n_def Let_def mem9_def map_replicate_const)

theorem correction_fields_start_zero_witness:
  "(1 :: int) \<le> 3 \<and> (3 :: int) \<le> 15 \<and>
   Multigrid_new GaussSeidel 3 (\<lambda>b k. 5) mem9 = driver3 \<and>
   in_block (snd driver3) (PU, 0) (level_cells 3) \<and>
   in_block (snd driver3) (PF, 0) (level_cells 3) \<and>
   mg_num (fst driver3) = 119 \<and> snd driver3 MV ! 25 = 5 \<and>
   (\<exists>s' H. Multigrid_call sample_ops (fst driver3) 1 \<lparr>mem = snd driver3, history = []\<rparr> = Some s' \<and>
      history s' = H \<and> recursions H = [(2, (MV, 25), (MW, 25)), (1, (MV, 9), (MW, 9))] \<and>
      snapshots H = [replicate 25 0, replicate 9 0] \<and>
      snd (fst (snd (recursions H ! 1))) + level_cells 1 \<le> snd (fst (snd (recursions H ! 0))))"
proof -
  let ?s = "\<lparr>mem = snd driver3, history = []\<rparr>"
  have a: "(1 :: int) \<le> 3" and b: "(3 :: int) \<le> 15" by simp_all
  have c: "Multigrid_new GaussSeidel 3 (\<lambda>b k. 5) mem9 = (fst driver3, snd driver3)"
    by (simp add: driver3_def)
  have d: "same_shape (snd driver3) (mem ?s)" by simp
  have e: "in_block (mem ?s) (PU, 0) (level_cells 3)"
    and f: "in_block (mem ?s) (PF, 0) (level_cells 3)"
    by (simp_all add: driver3_values in_block_def level_values)
  have up: "[1..(2::int)] = [1, 2]" by (simp add: upto.simps)
  from correction_fields_start_zero [OF a b c d e f, of sample_ops 1]
  obtain s' H where r: "Multigrid_call sample_ops (fst driver3) 1 ?s = Some s'"
      "history s' = history ?s @ H"
      "recursions H = map (\<lambda>k. (k, (MV, level_cells k), (MW, level_cells k))) (rev [1..3 - 1])"
      "snapshots H = map (\<lambda>k. replicate (nat (level_cells k)) 0) (rev [1..3 - 1])"
      "\<forall>(a, ea, ra) \<in> set (recursions H). \<forall>(b, eb, rb) \<in> set (recursions H).
              a < b \<longrightarrow> fst ea = fst eb \<and> snd ea + level_cells a \<le> snd eb \<and>
                        fst ra = fst rb \<and> snd ra + level_cells a \<le> snd rb \<and> fst ea \<noteq> fst ra"
    by (elim exE conjE) (rule that)
  have rec: "recursions H = [(2, (MV, 25), (MW, 25)), (1, (MV, 9), (MW, 9))]"
    using r(3) by (simp add: up level_values)
  moreover have "snapshots H = [replicate 25 0, replicate 9 0]"
    using r(4) by (simp add: up level_values)
  moreover have "snd (fst (snd (recursions H ! 1))) + level_cells 1 \<le> snd (fst (snd (recursions H ! 0)))"
    using r(5) unfolding rec by simp
  moreover have "snd driver3 MV ! 25 = 5" by (simp add: driver3_values)
  moreover have "mg_num (fst driver3) = 119" by (simp add: driver3_values)
  ultimately show ?thesis using a b e f r(1,2) by (simp add: driver3_def)
qed

theorem driver_overflow_at_16:
  "in_block mem65537 (PU, 0) (level_cells 16) \<and> in_block mem65537 (PF, 0) (level_cells 16) \<and>
   mg_l (fst driver16) = 16 \<and> mg_num (fst driver16) = 1431917924 \<and>
   2 * level_cells (16 - 1) = 2147614722 \<and>
   Multigrid_call sample_ops (fst driver16) 1 \<lparr>mem = snd driver16, history = []\<rparr> = None"
proof -
  have l: "mg_l (fst driver16) = 16" and n: "mg_num (fst driver16) = 1431917924"
    by (simp_all add: driver16_def Multigrid_new_def Let_def multigrid_size_def
          multigrid_size_loop.simps level_n_def)
  have "Multigrid_call sample_ops (fst driver16) 1 \<lparr>mem = snd driver16, history = []\<rparr> = None"
    by (auto simp: Multigrid_call_def l v_cycle_16 split: Option.bind_splits)
  moreover have "in_block mem65537 (PU, 0) (level_cells 16)" "in_block mem65537 (PF, 0) (level_cells 16)"
    using mem65537_ready by (simp_all add: ready_def)
  moreover have "2 * level_cells (16 - 1) = 2147614722"
    by (simp add: level_cells_def level_dim_def)
  ultimately show ?thesis using l n by simp
qed

section \<open>The arena size (C4)\<close>

text \<open>
  Claim C4, amended. For \<open>0 \<le> L \<le> 15\<close>, \<open>multigrid_size(L)\<close> is the sum over
  \<open>i = 0..L\<close> of \<open>(2\<^sup>i + 1)\<^sup>2\<close>; and for \<open>1 \<le> L \<le> 15\<close> one V-cycle at level \<open>L\<close> on
  arenas \<open>v\<close> and \<open>w\<close> of \<open>multigrid_size(L)\<close> elements each, a scratch field \<open>r\<close> of
  \<open>(2\<^sup>L + 1)\<^sup>2\<close> elements and fields \<open>u\<close> and \<open>f\<close> of that size returns: no load and no
  store of the smoother, the residual, the base case or a grid transfer leaves its
  buffer (any such access makes the result \<open>None\<close>), whatever the transfer operators
  compute on the blocks they are given.
\<close>

theorem arena_size_and_bounds:
  assumes "0 \<le> L" "L \<le> 15"
  shows "multigrid_size L = (\<Sum>i = 0..nat L. (2 ^ i + 1)\<^sup>2) \<and>
         (1 \<le> L \<and> in_block (mem s) u (level_cells L) \<and> in_block (mem s) f (level_cells L) \<and>
          in_block (mem s) r (level_cells L) \<and> in_block (mem s) v (int (multigrid_size L)) \<and>
          in_block (mem s) w (int (multigrid_size L))
          \<longrightarrow> (\<exists>s'. multigrid_v_cycle G L S u f r v w h s = Some s'))"
proof (intro conjI impI)
  show size: "multigrid_size L = (\<Sum>i = 0..nat L. (2 ^ i + 1)\<^sup>2)"
    using assms by (rule multigrid_size_small)
  assume h: "1 \<le> L \<and> in_block (mem s) u (level_cells L) \<and> in_block (mem s) f (level_cells L) \<and>
          in_block (mem s) r (level_cells L) \<and> in_block (mem s) v (int (multigrid_size L)) \<and>
          in_block (mem s) w (int (multigrid_size L))"
  then have L: "1 \<le> L" by simp
  have "2 * level_cells (L - 1) \<le> level_cells L" using L by (rule level_cells_double)
  also have "\<dots> \<le> int (multigrid_size L)" unfolding size using assms(1) by (rule level_cells_le_sum)
  finally have "2 * level_cells (L - 1) \<le> int (multigrid_size L)" .
  then have "ready L u f r v w (mem s)"
    using h by (auto simp: ready_def intro: in_block_less)
  from v_cycle_run [OF L assms(2) this, of G S h]
  show "\<exists>s'. multigrid_v_cycle G L S u f r v w h s = Some s'" by blast
qed

theorem arena_size_and_bounds_witness:
  "(0 :: int) \<le> 2 \<and> (2 :: int) \<le> 15 \<and> multigrid_size 2 = 38 \<and>
   in_block mem5 (MV, 0) (int (multigrid_size 2)) \<and>
   (\<exists>s'. multigrid_v_cycle sample_ops 2 GaussSeidel (PU, 0) (PF, 0) (MR, 0) (MV, 0) (MW, 0) 1
      \<lparr>mem = mem5, history = []\<rparr> = Some s')"
proof -
  let ?s = "\<lparr>mem = mem5, history = []\<rparr>"
  have a: "(0 :: int) \<le> 2" and b: "(2 :: int) \<le> 15" by simp_all
  have ms: "multigrid_size 2 = 38"
    by (simp add: multigrid_size_def multigrid_size_loop.simps level_n_def)
  have pre: "1 \<le> (2 :: int) \<and> in_block (mem ?s) (PU, 0) (level_cells 2) \<and>
      in_block (mem ?s) (PF, 0) (level_cells 2) \<and> in_block (mem ?s) (MR, 0) (level_cells 2) \<and>
      in_block (mem ?s) (MV, 0) (int (multigrid_size 2)) \<and>
      in_block (mem ?s) (MW, 0) (int (multigrid_size 2))"
    by (simp add: ms in_block_def mem5_def level_values)
  from arena_size_and_bounds [OF a b, of ?s "(PU, 0)" "(PF, 0)" "(MR, 0)" "(MV, 0)" "(MW, 0)"
      sample_ops GaussSeidel 1] pre
  have "\<exists>s'. multigrid_v_cycle sample_ops 2 GaussSeidel (PU, 0) (PF, 0) (MR, 0) (MV, 0) (MW, 0) 1 ?s
            = Some s'"
    by blast
  then show ?thesis using ms pre by simp
qed

theorem arena_size_overflow:
  "multigrid_size 16 = 1431917924 \<and> (\<Sum>i = 0..16. (2 ^ i + 1)\<^sup>2) = (5726885220 :: nat) \<and>
   multigrid_size 16 \<noteq> (\<Sum>i = 0..16. (2 ^ i + 1)\<^sup>2)"
  unfolding level_sum_eval
  by (simp add: multigrid_size_def multigrid_size_loop.simps level_n_def)

section \<open>The error diagnostic of the problem container (C10)\<close>

lemma for_loop_shift:
  "for_loop i n body s = for_loop (i + 1) (n + 1) (\<lambda>k. body (k - 1)) s"
proof (induction i n body s rule: for_loop.induct)
  case (1 i hi body s)
  show ?case
  proof (cases "i < hi")
    case False
    then show ?thesis by (simp add: for_loop.simps)
  next
    case True
    have L: "for_loop i hi body s =
        (case body i s of None \<Rightarrow> None | Some s' \<Rightarrow> for_loop (i + 1) hi body s')"
      using True by (subst for_loop.simps) simp
    have R: "for_loop (i + 1) (hi + 1) (\<lambda>k. body (k - 1)) s =
        (case body i s of None \<Rightarrow> None
         | Some s' \<Rightarrow> for_loop (i + 1 + 1) (hi + 1) (\<lambda>k. body (k - 1)) s')"
      using True by (subst for_loop.simps) simp
    show ?thesis
    proof (cases "body i s")
      case None
      then show ?thesis by (simp add: L R)
    next
      case (Some t)
      then show ?thesis using "1.IH" [OF True Some] by (simp add: L R)
    qed
  qed
qed

lemma fill_sweep:
  assumes bu: "in_block m u (n * n)"
  shows "\<exists>m'. for_loop 0 n (\<lambda>i. for_loop 0 n (fill_point u n g i)) m = Some m' \<and>
           writes_within u (n * n) m m' \<and>
           (\<forall>a b. on_grid n a b \<longrightarrow> entry m' u n a b = g a b)"
proof -
  define N where "N = n + 2"
  define body where "body = (\<lambda>i j. fill_point u n g (i - 1) (j - 1))"
  have N1: "N - 1 = n + 1" by (simp add: N_def)
  have loops: "for_loop 0 n (\<lambda>i. for_loop 0 n (fill_point u n g i))
        = for_loop 1 (N - 1) (\<lambda>i. for_loop 1 (N - 1) (body i))"
  proof
    fix t
    have inner: "for_loop 0 n (fill_point u n g i) = for_loop 1 (n + 1) (\<lambda>j. fill_point u n g i (j - 1))"
      for i
      by (rule ext) (rule for_loop_shift [of 0 n, simplified])
    have "for_loop 0 n (\<lambda>i. for_loop 0 n (fill_point u n g i)) t
        = for_loop 0 n (\<lambda>i. for_loop 1 (n + 1) (\<lambda>j. fill_point u n g i (j - 1))) t"
      by (simp only: inner)
    also have "\<dots> = for_loop 1 (n + 1) (\<lambda>i. for_loop 1 (n + 1) (\<lambda>j. fill_point u n g (i - 1) (j - 1))) t"
      by (rule for_loop_shift [of 0 n, simplified])
    finally show "for_loop 0 n (\<lambda>i. for_loop 0 n (fill_point u n g i)) t
        = for_loop 1 (N - 1) (\<lambda>i. for_loop 1 (N - 1) (body i)) t"
      unfolding N1 body_def .
  qed
  have grid: "(i, j) \<in> interior N \<longleftrightarrow> on_grid n (i - 1) (j - 1)" for i j
    by (auto simp: interior_def on_grid_def N_def)
  have "\<exists>m'. for_loop 1 (N - 1) (\<lambda>i. for_loop 1 (N - 1) (body i)) m = Some m' \<and>
           (writes_within u (n * n) m m' \<and>
            (\<forall>(i, j) \<in> interior N. entry m' u n (i - 1) (j - 1) = g (i - 1) (j - 1)))"
  proof (rule sweep_rule [where Q = "\<lambda>D t. writes_within u (n * n) m t \<and>
            (\<forall>(i, j) \<in> D. entry t u n (i - 1) (j - 1) = g (i - 1) (j - 1))"])
    show "writes_within u (n * n) m m \<and> (\<forall>(i, j) \<in> {}. entry m u n (i - 1) (j - 1) = g (i - 1) (j - 1))"
      by (simp add: writes_within_def)
  next
    fix i j t
    assume ij: "(i, j) \<in> interior N"
      and Q: "writes_within u (n * n) m t \<and>
            (\<forall>(i, j) \<in> before N i j. entry t u n (i - 1) (j - 1) = g (i - 1) (j - 1))"
    let ?D = "before N i j"
    define x where "x = g (i - 1) (j - 1)"
    define t' where "t' = upd t u (idx n (i - 1) (j - 1)) x"
    have og: "on_grid n (i - 1) (j - 1)" using ij grid by simp
    have tu: "in_block t u (n * n)" using Q bu by (auto intro: writes_within_in_block)
    have v: "valid t u (idx n (i - 1) (j - 1))" using tu og by (rule valid_on_grid)
    have step: "body i j t = Some t'"
      using v by (simp add: body_def fill_point_def st_def t'_def x_def idx_def mult.commute)
    have ib: "0 \<le> idx n (i - 1) (j - 1)" "idx n (i - 1) (j - 1) < n * n"
      using idx_bounds [of "i - 1" n "j - 1"] og by (simp_all add: on_grid_def)
    have "writes_within u (n * n) t t'"
      unfolding t'_def writes_within_def
    proof (intro conjI allI impI)
      show "same_shape t (upd t u (idx n (i - 1) (j - 1)) x)" by simp
      fix b k assume "\<not> (b = fst u \<and> snd u \<le> int k \<and> int k < snd u + n * n)"
      then have "\<not> (b = fst u \<and> int k = snd u + idx n (i - 1) (j - 1))" using ib by auto
      then show "upd t u (idx n (i - 1) (j - 1)) x b ! k = t b ! k"
        using v by (intro upd_frame) (auto simp: valid_def)
    qed
    then have ww: "writes_within u (n * n) m t'"
      using Q unfolding writes_within_def by (auto intro: same_shape_trans)
    have ent: "entry t' u n a b = (if a = i - 1 \<and> b = j - 1 then x else entry t u n a b)"
      if "on_grid n a b" for a b
      unfolding t'_def using tu og that by (rule entry_upd)
    have "entry t' u n (a - 1) (b - 1) = g (a - 1) (b - 1)" if ab: "(a, b) \<in> insert (i, j) ?D" for a b
    proof (cases "a = i \<and> b = j")
      case True
      then show ?thesis using og by (simp add: ent x_def)
    next
      case False
      then have abD: "(a, b) \<in> ?D" using ab by auto
      then have "(a, b) \<in> interior N" using before_interior [of N i j] by blast
      then have "on_grid n (a - 1) (b - 1)" by (simp add: grid)
      then have "entry t' u n (a - 1) (b - 1) = entry t u n (a - 1) (b - 1)"
        using False by (auto simp: ent)
      then show ?thesis using Q abD by auto
    qed
    then show "\<exists>t'. body i j t = Some t' \<and>
        (writes_within u (n * n) m t' \<and>
            (\<forall>(i, j) \<in> insert (i, j) ?D. entry t' u n (i - 1) (j - 1) = g (i - 1) (j - 1)))"
      using step ww by blast
  qed
  then obtain m' where m': "for_loop 1 (N - 1) (\<lambda>i. for_loop 1 (N - 1) (body i)) m = Some m'"
      "writes_within u (n * n) m m'"
      "\<forall>(i, j) \<in> interior N. entry m' u n (i - 1) (j - 1) = g (i - 1) (j - 1)"
    by blast
  have "entry m' u n a b = g a b" if "on_grid n a b" for a b
  proof -
    have "(a + 1, b + 1) \<in> interior N" using that grid [of "a + 1" "b + 1"] by simp
    then show ?thesis using m'(3) by fastforce
  qed
  then show ?thesis using m'(1,2) loops by simp
qed

lemma writes_within_other_buffer:
  assumes "writes_within p c m m'" "b \<noteq> fst p"
  shows "m' b = m b"
  using assms by (intro nth_equalityI) (auto simp: writes_within_def same_shape_def)

lemma peek_length: "in_block m p c \<Longrightarrow> length (peek m p c) = nat c"
  by (auto simp: peek_def in_block_def)

lemma peek_nth:
  assumes "in_block m p c" "k < nat c"
  shows "peek m p c ! k = m (fst p) ! (nat (snd p) + k)"
proof -
  have "nat (snd p) \<le> length (m (fst p))" using assms by (auto simp: in_block_def)
  then show ?thesis using assms(2) by (simp add: peek_def)
qed

lemma peek_poke:
  assumes "in_block m p (int (length xs))"
  shows "peek (poke m p xs) p (int (length xs)) = xs"
proof -
  have "nat (snd p) \<le> length (m (fst p))" using assms by (auto simp: in_block_def)
  then show ?thesis by (simp add: peek_def poke_def)
qed

lemma peek_entries:
  assumes bu: "in_block m u (n * n)" and n: "0 \<le> n"
    and ent: "\<forall>a b. on_grid n a b \<longrightarrow> entry m u n a b = g a b"
  shows "peek m u (n * n) = map (\<lambda>k. g (int k div n) (int k mod n)) [0..<nat (n * n)]"
proof (rule nth_equalityI)
  show "length (peek m u (n * n)) = length (map (\<lambda>k. g (int k div n) (int k mod n)) [0..<nat (n * n)])"
    using bu by (simp add: peek_length)
  fix k assume "k < length (peek m u (n * n))"
  then have k: "k < nat (n * n)" using bu by (simp add: peek_length)
  then have kn: "int k < n * n" by simp
  have npos: "0 < n" using kn n by (cases "n = 0") auto
  have "int k div n < n"
  proof (rule ccontr)
    assume "\<not> int k div n < n"
    then have 1: "n * n \<le> n * (int k div n)" using npos by (intro mult_left_mono) auto
    have 2: "int k = n * (int k div n) + int k mod n" by simp
    have 3: "0 \<le> int k mod n" using npos by simp
    show False using 1 2 3 kn by linarith
  qed
  then have og: "on_grid n (int k div n) (int k mod n)"
    using npos by (simp add: on_grid_def pos_imp_zdiv_nonneg_iff)
  have u0: "0 \<le> snd u" using bu by (simp add: in_block_def)
  have "idx n (int k div n) (int k mod n) = int k" by (simp add: idx_def)
  then have "entry m u n (int k div n) (int k mod n) = m (fst u) ! (nat (snd u) + k)"
    using u0 by (simp add: entry_def cell_def nat_add_distrib)
  then have "peek m u (n * n) ! k = g (int k div n) (int k mod n)"
    using ent og peek_nth [OF bu k] by simp
  then show "peek m u (n * n) ! k = map (\<lambda>k. g (int k div n) (int k mod n)) [0..<nat (n * n)] ! k"
    using k by simp
qed

lemma exact_solution_field:
  assumes "in_block m u (n * n)" "0 \<le> n"
  shows "\<exists>m'. exact_solution u n h modes m = Some m' \<and> writes_within u (n * n) m m' \<and>
           peek m' u (n * n) = exact_field n h modes"
proof -
  define g where "g = (\<lambda>i j. exact_value n h modes i j)"
  obtain m' where m': "for_loop 0 n (\<lambda>i. for_loop 0 n (fill_point u n g i)) m = Some m'"
      "writes_within u (n * n) m m'" "\<forall>a b. on_grid n a b \<longrightarrow> entry m' u n a b = g a b"
    using fill_sweep [OF assms(1), of g] by blast
  have "exact_solution u n h modes m = Some m'"
    using m'(1) by (simp add: exact_solution_def g_def exact_value_def Let_def)
  moreover have "peek m' u (n * n) = exact_field n h modes"
    unfolding exact_field_def
    using peek_entries [OF writes_within_in_block [OF m'(2) assms(1)] assms(2) m'(3)]
    by (simp add: g_def)
  ultimately show ?thesis using m'(2) by blast
qed

text \<open>
  Claim C10. \<open>Poisson::error()\<close> on fields \<open>u\<close> and \<open>r\<close> of \<open>n \<times> n\<close> elements returns;
  afterwards \<open>r\<close> holds \<open>u\<close> minus the manufactured exact solution, element by element,
  \<open>u\<close> and \<open>f\<close> are as before, and the value returned is \<open>h\<^sup>2\<close> times the sum of the
  absolute values of that difference. A call of \<open>norm()\<close> on the memory \<open>error()\<close> leaves
  returns this same value: the weighted L1 norm of the solution error.
\<close>

theorem error_overwrites_residual:
  assumes "0 \<le> p_n p" "in_block m (PU, 0) (p_n p * p_n p)" "in_block m (PR, 0) (p_n p * p_n p)"
  shows "\<exists>err m'. Poisson_error p junk m = Some (err, m') \<and>
           peek m' (PR, 0) (p_n p * p_n p) =
             map2 (-) (peek m (PU, 0) (p_n p * p_n p)) (exact_field (p_n p) (p_h p) (p_modes p)) \<and>
           m' PU = m PU \<and> m' PF = m PF \<and>
           err = p_h p * p_h p *
                 sum_list (map abs (map2 (-) (peek m (PU, 0) (p_n p * p_n p))
                                             (exact_field (p_n p) (p_h p) (p_modes p)))) \<and>
           Poisson_norm p m' = Some err"
proof -
  let ?n = "p_n p"
  define num where "num = nat (?n * ?n)"
  have num: "int num = ?n * ?n" by (simp add: num_def)
  define m0 where "m0 = malloc ES num junk m"
  have m0: "m0 = m(ES := map junk [0..<num])" by (simp add: m0_def malloc_def)
  have "in_block m0 (ES, 0) (int num)" by (simp add: m0 in_block_def)
  then obtain m1 where m1: "memset0 (ES, 0) num m0 = Some m1" "writes_within (ES, 0) (int num) m0 m1"
    using memset0_returns by blast
  have e1: "in_block m1 (ES, 0) (?n * ?n)"
    using m1(2) by (auto simp: m0 in_block_def num writes_within_def same_shape_def)
  obtain m2 where m2: "exact_solution (ES, 0) ?n (p_h p) (p_modes p) m1 = Some m2"
      "writes_within (ES, 0) (?n * ?n) m1 m2"
      "peek m2 (ES, 0) (?n * ?n) = exact_field ?n (p_h p) (p_modes p)"
    using exact_solution_field [OF e1 assms(1)] by blast
  have same: "m2 b = m b" if "b \<noteq> ES" for b
    using writes_within_other_buffer [OF m2(2), of b] writes_within_other_buffer [OF m1(2), of b] that
    by (simp add: m0)
  have e2: "in_block m2 (ES, 0) (?n * ?n)" using m2(2) e1 by (rule writes_within_in_block)
  have u2: "in_block m2 (PU, 0) (?n * ?n)" and r2: "in_block m2 (PR, 0) (?n * ?n)"
    using assms(2,3) by (simp_all add: in_block_def same)
  have pu: "peek m2 (PU, 0) (?n * ?n) = peek m (PU, 0) (?n * ?n)"
    by (simp add: peek_def same)
  define xs where "xs = map2 (-) (peek m (PU, 0) (?n * ?n)) (exact_field ?n (p_h p) (p_modes p))"
  have len: "int (length xs) = ?n * ?n"
    unfolding xs_def m2(3) [symmetric] pu [symmetric]
    using u2 e2 by (simp add: peek_length)
  define m3 where "m3 = poke m2 (PR, 0) xs"
  have r2': "in_block m2 (PR, 0) (int (length xs))" using r2 len by simp
  have sub: "grid_subtract (PR, 0) (PU, 0) (ES, 0) ?n ?n m2 = Some m3"
    using u2 e2 r2' by (simp add: grid_subtract_def ld_block_def st_block_def m2(3) pu xs_def m3_def)
  have pr3: "peek m3 (PR, 0) (?n * ?n) = xs"
    unfolding m3_def using peek_poke [OF r2'] len by simp
  have r3: "in_block m3 (PR, 0) (?n * ?n)"
    using st_block_writes_within [OF r2'] r2 by (auto simp: m3_def intro: writes_within_in_block)
  define err where "err = p_h p * p_h p * sum_list (map abs xs)"
  have nrm: "grid_l1norm (PR, 0) ?n ?n (p_h p) (p_h p) m3 = Some err"
    using r3 by (simp add: grid_l1norm_def ld_block_def pr3 err_def)
  define m' where "m' = m3(ES := [])"
  have run: "Poisson_error p junk m = Some (err, m')"
    using m1(1) m2(1) sub nrm
    by (simp add: Poisson_error_def Let_def num_def [symmetric] m0_def [symmetric] m'_def)
  have pr: "m' PR = m3 PR" by (simp add: m'_def)
  have "peek m' (PR, 0) (?n * ?n) = xs" using pr3 by (simp add: peek_def pr)
  moreover have "m' PU = m PU" "m' PF = m PF"
    by (simp_all add: m'_def m3_def poke_def same)
  moreover have "grid_l1norm (PR, 0) ?n ?n (p_h p) (p_h p) m' = grid_l1norm (PR, 0) ?n ?n (p_h p) (p_h p) m3"
    by (simp add: grid_l1norm_def ld_block_def in_block_def peek_def pr)
  then have "Poisson_norm p m' = Some err"
    using nrm by (simp add: Poisson_norm_def)
  ultimately show ?thesis using run unfolding err_def xs_def by blast
qed

theorem error_overwrites_residual_witness:
  "(0 :: int) \<le> 3 \<and> in_block mem3 (PU, 0) (3 * 3) \<and> in_block mem3 (PR, 0) (3 * 3) \<and>
   mem3 PR = replicate 9 5 \<and>
   (\<exists>m'. Poisson_error \<lparr>p_n = 3, p_l = 1, p_h = 1 / 2, p_modes = 0\<rparr> (\<lambda>k. 7) mem3
            = Some (45 / 4, m') \<and>
      peek m' (PR, 0) 9 = [1, 2, 3, 4, 5, 6, 7, 8, 9] \<and> m' PU = [1, 2, 3, 4, 5, 6, 7, 8, 9] \<and>
      Poisson_norm \<lparr>p_n = 3, p_l = 1, p_h = 1 / 2, p_modes = 0\<rparr> m' = Some (45 / 4))"
proof -
  let ?p = "\<lparr>p_n = 3, p_l = 1, p_h = 1 / 2, p_modes = 0\<rparr>"
  have a: "0 \<le> p_n ?p" and b: "in_block mem3 (PU, 0) (p_n ?p * p_n ?p)"
    and c: "in_block mem3 (PR, 0) (p_n ?p * p_n ?p)"
    by (simp_all add: in_block_def mem3_def)
  have ex: "exact_field 3 (1 / 2) 0 = replicate 9 0"
    by (simp add: exact_field_def exact_value_def map_replicate_const)
  have pk: "peek mem3 (PU, 0) 9 = [1, 2, 3, 4, 5, 6, 7, 8, 9]"
    by (simp add: peek_def mem3_def)
  have df: "map2 (-) [1, 2, 3, 4, 5, 6, 7, 8, 9 :: real] (replicate 9 0) = [1, 2, 3, 4, 5, 6, 7, 8, 9]"
    by (simp add: numeral_eq_Suc)
  from error_overwrites_residual [OF a b c, of "\<lambda>k. 7"]
  obtain err m' where r: "Poisson_error ?p (\<lambda>k. 7) mem3 = Some (err, m')"
      "peek m' (PR, 0) 9 = [1, 2, 3, 4, 5, 6, 7, 8, 9]" "m' PU = mem3 PU"
      "err = 1 / 2 * (1 / 2) * sum_list (map abs [1, 2, 3, 4, 5, 6, 7, 8, 9 :: real])"
      "Poisson_norm ?p m' = Some err"
    by (auto simp: ex pk df)
  have e: "err = 45 / 4" using r(4) by simp
  have "Poisson_error ?p (\<lambda>k. 7) mem3 = Some (45 / 4, m')" "Poisson_norm ?p m' = Some (45 / 4)"
    using r(1,5) unfolding e by simp_all
  moreover have "m' PU = [1, 2, 3, 4, 5, 6, 7, 8, 9]" using r(3) by (simp add: mem3_def)
  moreover have "mem3 PR = replicate 9 5" by (simp add: mem3_def)
  ultimately show ?thesis using r(2) b c by auto
qed

end
